theory Spec2Isabelle
  imports Complex_Main "HOL-Library.Word" "HOL-Library.Multiset"
begin

section \<open>Strings\<close>

text \<open>
  A JavaScript string is a sequence of UTF-16 code units; \<open>length\<close> counts code units and
  a regular expression without the \<open>u\<close> flag matches one code unit at a time.
  \<open>js\<close> turns an ASCII literal of the theory into such a string.
\<close>

type_synonym jschar = "16 word"
type_synonym jsstring = "jschar list"

definition js :: "string \<Rightarrow> jsstring" where
  "js s = map of_char s"

text \<open>
  The class \<open>\s\<close> of a regular expression, which is also what \<open>trim\<close> strips:
  tab, line feed, vertical tab, form feed, carriage return, space, no-break space,
  U+1680, U+2000 to U+200A, U+2028, U+2029, U+202F, U+205F, U+3000 and U+FEFF.
\<close>

definition isSpace :: "jschar \<Rightarrow> bool" where
  "isSpace c \<longleftrightarrow>
     c \<in> set [9, 10, 11, 12, 13, 32, 160, 5760, 8232, 8233, 8239, 8287, 12288, 65279]
     \<or> (8192 \<le> c \<and> c \<le> 8202)"

definition trim :: "jsstring \<Rightarrow> jsstring" where
  "trim s = rev (dropWhile isSpace (rev (dropWhile isSpace s)))"

text \<open>
  \<open>toLowerCase\<close> on the letters A to Z. The full Unicode mapping differs on other
  characters only, and it maps none of them to a letter of the word \<open>redact\<close>, the
  only string the program looks for in a lower-cased string.
\<close>

definition toLowerCase :: "jsstring \<Rightarrow> jsstring" where
  "toLowerCase s = map (\<lambda>c. if 65 \<le> c \<and> c \<le> 90 then c + 32 else c) s"

fun startsWith :: "jsstring \<Rightarrow> jsstring \<Rightarrow> bool" where
  "startsWith s [] = True"
| "startsWith [] (p # ps) = False"
| "startsWith (c # cs) (p # ps) = (c = p \<and> startsWith cs ps)"

fun str_includes :: "jsstring \<Rightarrow> jsstring \<Rightarrow> bool" where
  "str_includes [] p = (p = [])"
| "str_includes (c # cs) p = (startsWith (c # cs) p \<or> str_includes cs p)"

definition endsWith :: "jsstring \<Rightarrow> jsstring \<Rightarrow> bool" where
  "endsWith s p = startsWith (rev s) (rev p)"

text \<open>\<open>s.split(sep)\<close> for a separator of one character: the result is never empty.\<close>

fun split_on :: "jschar \<Rightarrow> jsstring \<Rightarrow> jsstring list" where
  "split_on sep [] = [[]]"
| "split_on sep (c # cs) =
     (if c = sep then [] # split_on sep cs
      else (case split_on sep cs of
              [] \<Rightarrow> [[c]]
            | w # ws \<Rightarrow> (c # w) # ws))"

text \<open>\<open>xs.join(sep)\<close>.\<close>

fun join :: "jschar \<Rightarrow> jsstring list \<Rightarrow> jsstring" where
  "join sep [] = []"
| "join sep [x] = x"
| "join sep (x # y # ys) = x @ sep # join sep (y # ys)"

definition comma :: jschar where
  "comma = 44"

section \<open>The markup tree\<close>

text \<open>
  The program keeps a page as the text of an SVG document and parses it with the
  browser's \<open>DOMParser\<close> whenever it works on it, serialising the tree again afterwards.
  A page's text is represented here by the tree the parser builds from it: an element has
  a tag name (its qualified name), its attributes in order, and its children; character
  data is a text node or a \<open>CDATA\<close> section. Comments and processing instructions, which
  no operation of the program reads or changes, are left out. A text the parser rejects
  yields a tree that holds a \<open>parsererror\<close> element, which is how the program
  recognises it.
\<close>

datatype node =
    Element jsstring "(jsstring \<times> jsstring) list" "node list"
  | TextNode jsstring
  | CData jsstring

fun tagName :: "node \<Rightarrow> jsstring" where
  "tagName (Element n as ks) = n"
| "tagName (TextNode t) = []"
| "tagName (CData t) = []"

fun attributes :: "node \<Rightarrow> (jsstring \<times> jsstring) list" where
  "attributes (Element n as ks) = as"
| "attributes (TextNode t) = []"
| "attributes (CData t) = []"

fun childNodes :: "node \<Rightarrow> node list" where
  "childNodes (Element n as ks) = ks"
| "childNodes (TextNode t) = []"
| "childNodes (CData t) = []"

definition getAttribute :: "node \<Rightarrow> jsstring \<Rightarrow> jsstring option" where
  "getAttribute e name = map_of (attributes e) name"

definition hasAttribute :: "node \<Rightarrow> jsstring \<Rightarrow> bool" where
  "hasAttribute e name \<longleftrightarrow> getAttribute e name \<noteq> None"

text \<open>\<open>setAttribute\<close> changes the value in place, or adds the attribute at the end.\<close>

fun set_attr :: "jsstring \<Rightarrow> jsstring \<Rightarrow> (jsstring \<times> jsstring) list \<Rightarrow> (jsstring \<times> jsstring) list" where
  "set_attr name v [] = [(name, v)]"
| "set_attr name v ((k, w) # as) =
     (if k = name then (k, v) # as else (k, w) # set_attr name v as)"

fun setAttribute :: "jsstring \<Rightarrow> jsstring \<Rightarrow> node \<Rightarrow> node" where
  "setAttribute name v (Element n as ks) = Element n (set_attr name v as) ks"
| "setAttribute name v (TextNode t) = TextNode t"
| "setAttribute name v (CData t) = CData t"

fun removeAttribute :: "jsstring \<Rightarrow> node \<Rightarrow> node" where
  "removeAttribute name (Element n as ks) = Element n (filter (\<lambda>(k, w). k \<noteq> name) as) ks"
| "removeAttribute name (TextNode t) = TextNode t"
| "removeAttribute name (CData t) = CData t"

text \<open>
  All elements of a tree in document order, the root included:
  what \<open>doc.getElementsByTagName\<close> searches.
\<close>

fun elements :: "node \<Rightarrow> node list" where
  "elements (TextNode t) = []"
| "elements (CData t) = []"
| "elements (Element n as ks) = Element n as ks # concat (map elements ks)"

definition getElementsByTagName :: "jsstring \<Rightarrow> node \<Rightarrow> node list" where
  "getElementsByTagName t d = filter (\<lambda>e. tagName e = t) (elements d)"

definition getElementById :: "jsstring \<Rightarrow> node \<Rightarrow> node option" where
  "getElementById v d = find (\<lambda>e. getAttribute e (js ''id'') = Some v) (elements d)"

text \<open>
  \<open>textContent\<close>: the text of all text nodes and \<open>CDATA\<close> sections below, in document
  order.
\<close>

fun textContent :: "node \<Rightarrow> jsstring" where
  "textContent (TextNode t) = t"
| "textContent (CData t) = t"
| "textContent (Element n as ks) = concat (map textContent ks)"

section \<open>Namespaces\<close>

text \<open>
  The namespace of a name is given by the declarations in scope, the attributes
  \<open>xmlns\<close> and \<open>xmlns:p\<close> of the element and of its ancestors. A scope is the default
  namespace, if there is one, and the prefixes with the namespaces they were declared for,
  in the order of the declarations from the root on.
\<close>

type_synonym scope = "jsstring option \<times> (jsstring \<times> jsstring) list"

definition SVG_NS :: jsstring where
  "SVG_NS = js ''http://www.w3.org/2000/svg''"

definition XML_NS :: jsstring where
  "XML_NS = js ''http://www.w3.org/XML/1998/namespace''"

definition colon :: jschar where
  "colon = 58"

text \<open>The scope of a document, outside its root.\<close>

definition outermost :: scope where
  "outermost = (None, [])"

definition declared_prefixes :: "(jsstring \<times> jsstring) list \<Rightarrow> (jsstring \<times> jsstring) list" where
  "declared_prefixes as =
     map (\<lambda>(k, v). (drop 6 k, v)) (filter (\<lambda>(k, v). startsWith k (js ''xmlns:'')) as)"

text \<open>The scope inside an element with the attributes \<open>as\<close>, for its own name too.\<close>

definition inside :: "(jsstring \<times> jsstring) list \<Rightarrow> scope \<Rightarrow> scope" where
  "inside as sc =
     ((case map_of as (js ''xmlns'') of
         None \<Rightarrow> fst sc
       | Some v \<Rightarrow> if v = [] then None else Some v),
      snd sc @ declared_prefixes as)"

text \<open>
  A qualified name is a local name, or a prefix, a colon and a local name; it has one
  colon at most.
\<close>

definition prefix_of :: "jsstring \<Rightarrow> jsstring option" where
  "prefix_of q =
     (if colon \<in> set q then Some (rev (tl (dropWhile (\<lambda>c. c \<noteq> colon) (rev q)))) else None)"

definition local_part :: "jsstring \<Rightarrow> jsstring" where
  "local_part q = rev (takeWhile (\<lambda>c. c \<noteq> colon) (rev q))"

definition local_name :: "node \<Rightarrow> jsstring" where
  "local_name e = local_part (tagName e)"

text \<open>\<open>namespaceURI\<close> of an element named \<open>q\<close>, in the scope inside it.\<close>

definition namespaceURI :: "scope \<Rightarrow> jsstring \<Rightarrow> jsstring option" where
  "namespaceURI sc q =
     (case prefix_of q of
        None \<Rightarrow> fst sc
      | Some p \<Rightarrow> if p = js ''xml'' then Some XML_NS else map_of (rev (snd sc)) p)"

text \<open>All elements of a tree in document order, each with the scope inside it.\<close>

fun scoped_elements :: "scope \<Rightarrow> node \<Rightarrow> (scope \<times> node) list" where
  "scoped_elements sc (TextNode t) = []"
| "scoped_elements sc (CData t) = []"
| "scoped_elements sc (Element n as ks) =
     (inside as sc, Element n as ks) # concat (map (scoped_elements (inside as sc)) ks)"

text \<open>
  An element made with \<open>createElementNS\<close> in the SVG namespace has no prefix and no
  declaration of its own. The serialiser, which follows the algorithm of the DOM Parsing
  and Serialization specification, writes it by its local name where the default
  namespace in scope is the SVG namespace. Elsewhere it writes it with the prefix that
  was the last to be declared for the SVG namespace; if there is no such prefix it writes
  the local name and adds the declaration of the SVG namespace as the default, ahead of
  the other attributes. The tree of the text it writes has the element under that name
  and with that attribute.
\<close>

definition preferred_prefix :: "scope \<Rightarrow> jsstring option" where
  "preferred_prefix sc =
     (case remdups (rev (map fst (filter (\<lambda>(p, v). v = SVG_NS) (snd sc)))) of
        [] \<Rightarrow> None
      | p # ps \<Rightarrow> Some p)"

definition qualified_name :: "scope \<Rightarrow> jsstring \<Rightarrow> jsstring" where
  "qualified_name sc name =
     (if fst sc = Some SVG_NS then name
      else (case preferred_prefix sc of
              None \<Rightarrow> name
            | Some p \<Rightarrow> p @ colon # name))"

definition ns_declaration :: "scope \<Rightarrow> (jsstring \<times> jsstring) list" where
  "ns_declaration sc =
     (if fst sc \<noteq> Some SVG_NS \<and> preferred_prefix sc = None then [(js ''xmlns'', SVG_NS)]
      else [])"

text \<open>
  \<open>createElementNS\<close> for the SVG namespace with the attributes set on the element and the
  children appended to it, as it reads once it is written in the scope \<open>sc\<close>; the children
  are given for the scope inside the element.
\<close>

definition createElementNS ::
  "scope \<Rightarrow> jsstring \<Rightarrow> (jsstring \<times> jsstring) list \<Rightarrow> (scope \<Rightarrow> node list) \<Rightarrow> node" where
  "createElementNS sc name as ks =
     Element (qualified_name sc name) (ns_declaration sc @ as) (ks (inside (ns_declaration sc) sc))"

section \<open>The redaction transform (\<open>SvgProcessor.redact\<close>)\<close>

definition shouldRedact :: "node \<Rightarrow> bool" where
  "shouldRedact element =
     (case getAttribute element (js ''data-tags'') of
        None \<Rightarrow> False
      | Some tags \<Rightarrow> tags \<noteq> [] \<and> str_includes (toLowerCase tags) (js ''redact''))"

definition FILTER_ID :: jsstring where
  "FILTER_ID = js ''redact-blur''"

definition filter_url :: jsstring where
  "filter_url = js ''url(#'' @ FILTER_ID @ js '')''"

text \<open>The filter element with its blur, made for the scope \<open>sc\<close>.\<close>

definition blur_filter :: "scope \<Rightarrow> node" where
  "blur_filter sc =
     createElementNS sc (js ''filter'')
       [(js ''id'', FILTER_ID), (js ''x'', js ''-50%''), (js ''y'', js ''-50%''),
        (js ''width'', js ''200%''), (js ''height'', js ''200%'')]
       (\<lambda>sc'. [createElementNS sc' (js ''feGaussianBlur'')
                  [(js ''stdDeviation'', js ''150'')] (\<lambda>sc''. [])])"

text \<open>
  \<open>doc.documentElement.insertBefore(defs, doc.documentElement.firstChild)\<close>.
  The root of a document is an element.
\<close>

fun insertFirst :: "node \<Rightarrow> node \<Rightarrow> node" where
  "insertFirst new (Element n as ks) = Element n as (new # ks)"
| "insertFirst new (TextNode t) = TextNode t"
| "insertFirst new (CData t) = CData t"

text \<open>
  \<open>try_first f xs\<close> changes the first member of \<open>xs\<close> that \<open>f\<close> accepts.
\<close>

fun try_first :: "('a \<Rightarrow> 'a option) \<Rightarrow> 'a list \<Rightarrow> 'a list option" where
  "try_first f [] = None"
| "try_first f (x # xs) =
     (case f x of
        Some y \<Rightarrow> Some (y # xs)
      | None \<Rightarrow> map_option ((#) x) (try_first f xs))"

lemma try_first_cong [fundef_cong]:
  "xs = ys \<Longrightarrow> (\<And>x. x \<in> set ys \<Longrightarrow> f x = g x) \<Longrightarrow> try_first f xs = try_first g ys"
  by (induction ys arbitrary: xs) (auto split: option.splits)

text \<open>
  \<open>defs.appendChild(filter)\<close> where \<open>defs\<close> is \<open>doc.getElementsByTagName('defs')[0]\<close>,
  the first such element in document order; \<open>None\<close> when the tree has none. The new
  child is given for the scope inside that element.
\<close>

fun appendToFirst :: "jsstring \<Rightarrow> (scope \<Rightarrow> node) \<Rightarrow> scope \<Rightarrow> node \<Rightarrow> node option" where
  "appendToFirst t new sc (TextNode s) = None"
| "appendToFirst t new sc (CData s) = None"
| "appendToFirst t new sc (Element n as ks) =
     (if n = t then Some (Element n as (ks @ [new (inside as sc)]))
      else map_option (Element n as) (try_first (appendToFirst t new (inside as sc)) ks))"

text \<open>
  \<open>defs.appendChild(filter)\<close> where \<open>defs\<close> is the element that was just made and put in
  as the first child of the root.
\<close>

fun appendToNew :: "(scope \<Rightarrow> node) \<Rightarrow> scope \<Rightarrow> node \<Rightarrow> node" where
  "appendToNew new sc (Element n as (Element d ds ks # rest)) =
     Element n as (Element d ds (ks @ [new (inside ds (inside as sc))]) # rest)"
| "appendToNew new sc e = e"

text \<open>\<open>imagesToRedact.forEach(img => img.setAttribute('filter', ...))\<close>.\<close>

fun setFilters :: "node \<Rightarrow> node" where
  "setFilters (TextNode t) = TextNode t"
| "setFilters (CData t) = CData t"
| "setFilters (Element n as ks) =
     (let e = Element n as (map setFilters ks)
      in if n = js ''image'' \<and> shouldRedact e then setAttribute (js ''filter'') filter_url e else e)"

definition redactImages :: "node \<Rightarrow> node" where
  "redactImages doc =
     (let imagesToRedact = filter shouldRedact (getElementsByTagName (js ''image'') doc)
      in if imagesToRedact = [] then doc
         else
           let found = (getElementsByTagName (js ''defs'') doc \<noteq> []);
               doc1 = (if \<not> found
                       then insertFirst
                              (createElementNS (inside (attributes doc) outermost) (js ''defs'') []
                                 (\<lambda>sc. []))
                              doc
                       else doc);
               doc2 = (if getElementById FILTER_ID doc1 = None
                       then if found
                            then (case appendToFirst (js ''defs'') blur_filter outermost doc1 of
                                    Some d \<Rightarrow> d | None \<Rightarrow> doc1)
                            else appendToNew blur_filter outermost doc1
                       else doc1)
           in setFilters doc2)"

text \<open>
  The replacement string of the source, as its bytes spell it: the three characters
  U+00E2, U+2013 and U+00AE.
\<close>

definition MASK :: jsstring where
  "MASK = [0xE2, 0x2013, 0xAE]"

text \<open>\<open>text.replace(/[^\s]/g, MASK)\<close>.\<close>

definition mask_with :: "jsstring \<Rightarrow> jsstring \<Rightarrow> jsstring" where
  "mask_with glyph t = concat (map (\<lambda>c. if isSpace c then [c] else glyph) t)"

definition mask :: "jsstring \<Rightarrow> jsstring" where
  "mask t = mask_with MASK t"

text \<open>
  \<open>redactTextNodes(element)\<close>: the tree walker, which shows text nodes only
  (\<open>NodeFilter.SHOW_TEXT\<close>), visits every text node below the element, and those that
  have a character other than white space are replaced. A \<open>CDATA\<close> section is not a
  node that the walker shows, so it is left as it is.
\<close>

fun redactTextNodes :: "node \<Rightarrow> node" where
  "redactTextNodes (TextNode t) = TextNode (if t \<noteq> [] \<and> trim t \<noteq> [] then mask t else t)"
| "redactTextNodes (CData t) = CData t"
| "redactTextNodes (Element n as ks) = Element n as (map redactTextNodes ks)"

text \<open>
  \<open>allTextContainers.forEach(el => { if (shouldRedact(el)) redactTextNodes(el) })\<close>
  over all \<open>text\<close> and \<open>tspan\<close> elements. A text node below several tagged
  containers is replaced once for each of them, whatever the order, so the walk of an inner
  container may be done before that of an outer one.
\<close>

fun redactText :: "node \<Rightarrow> node" where
  "redactText (TextNode t) = TextNode t"
| "redactText (CData t) = CData t"
| "redactText (Element n as ks) =
     (let e = Element n as (map redactText ks)
      in if (n = js ''text'' \<or> n = js ''tspan'') \<and> shouldRedact e then redactTextNodes e else e)"

definition redact :: "node \<Rightarrow> node" where
  "redact svgContent = redactText (redactImages svgContent)"

section \<open>Toggling tags (\<open>TaggingEditor.handleSvgClick\<close>)\<close>

text \<open>
  A JavaScript \<open>Set\<close> of strings, as the list of its members in insertion order.
\<close>

definition set_add :: "jsstring \<Rightarrow> jsstring list \<Rightarrow> jsstring list" where
  "set_add x s = (if x \<in> set s then s else s @ [x])"

definition set_delete :: "jsstring \<Rightarrow> jsstring list \<Rightarrow> jsstring list" where
  "set_delete x s = removeAll x s"

definition new_Set :: "jsstring list \<Rightarrow> jsstring list" where
  "new_Set xs = fold set_add xs []"

text \<open>
  \<open>new Set(currentTagsStr ? currentTagsStr.split(',') : [])\<close> for
  \<open>currentTagsStr = target.getAttribute('data-tags') || ''\<close>.
\<close>

definition currentTags :: "node \<Rightarrow> jsstring list" where
  "currentTags target =
     (let currentTagsStr = (case getAttribute target (js ''data-tags'') of
                              None \<Rightarrow> [] | Some s \<Rightarrow> s)
      in new_Set (if currentTagsStr \<noteq> [] then split_on comma currentTagsStr else []))"

definition toggle :: "jsstring \<Rightarrow> jsstring list \<Rightarrow> jsstring list" where
  "toggle tag tags = (if tag \<in> set tags then set_delete tag tags else set_add tag tags)"

text \<open>
  The click handler on the element it resolved as its target; \<open>activeTags\<close> is a
  \<open>Set\<close>, given by its members in insertion order.
\<close>

definition handleSvgClick :: "jsstring list \<Rightarrow> node \<Rightarrow> node" where
  "handleSvgClick activeTags target =
     (if tagName target \<in> {js ''image'', js ''text''} then
        if activeTags = [] then target
        else
          let newTags = join comma (fold toggle activeTags (currentTags target))
          in if newTags \<noteq> [] then setAttribute (js ''data-tags'') newTags target
             else removeAttribute (js ''data-tags'') target
      else target)"

text \<open>The tag set of an element, as the handler reads it.\<close>

definition tagSet :: "node \<Rightarrow> jsstring set" where
  "tagSet e = set (currentTags e)"

section \<open>What the browser provides\<close>

text \<open>
  The program calls into its environment: the browser (\<open>URL\<close>, \<open>fetch\<close>, \<open>FileReader\<close>,
  \<open>Math.random\<close>, \<open>parseFloat\<close>, the style of an element, the canvas) and the
  PDF library. The model takes these as the fields of a record; the theorems hold for every
  environment.
\<close>

type_synonym blob = "nat list"

text \<open>
  The outcome of \<open>fetch(href)\<close> followed by \<open>response.blob()\<close>: the promise of
  \<open>fetch\<close> is rejected with a message, or there is a response with its \<open>ok\<close> flag, its
  \<open>content-type\<close> header if any, and its body, or the message with which reading the body
  fails.
\<close>

datatype fetch_result =
    Rejected jsstring
  | Response bool "jsstring option" "jsstring + blob"

datatype orientation = Landscape | Portrait

text \<open>The calls to the PDF library that the export makes.\<close>

datatype pdf_op =
    AddImage jsstring real real
  | SetFillColor jsstring
  | Rect real real
  | PdfText jsstring

datatype pdf_call =
    NewDocument orientation real real
  | AddPage orientation real real
  | Draw pdf_op

record env =
  url_pathname :: "jsstring \<Rightarrow> jsstring option"
  fetch :: "nat \<Rightarrow> jsstring \<Rightarrow> fetch_result"
  random_hash :: "nat \<Rightarrow> jsstring"
  generateId :: "nat \<Rightarrow> jsstring"
  blobToBase64 :: "blob \<Rightarrow> jsstring option"
  parseFloat :: "jsstring \<Rightarrow> real option"
  styleBackgroundColor :: "node \<Rightarrow> jsstring"
  svgToDataUrl :: "node \<Rightarrow> real \<Rightarrow> real \<Rightarrow> jsstring option"
  pdf_throws :: "pdf_call \<Rightarrow> bool"

text \<open>
  \<^item> \<open>url_pathname s\<close> is the \<open>pathname\<close> of \<open>new URL(s)\<close>, or \<open>None\<close> when the
    constructor throws, as it does for a relative reference.
  \<^item> \<open>fetch n href\<close> is the outcome of the fetch of \<open>href\<close> that comes after \<open>n\<close>
    earlier fetches.
  \<^item> \<open>random_hash n\<close> is \<open>Math.random().toString(36).substring(2, 8)\<close> at the draw that
    comes after \<open>n\<close> earlier ones; \<open>generateId\<close> likewise.
  \<^item> \<open>blobToBase64 b\<close> is the data URL the \<open>FileReader\<close> yields, or \<open>None\<close> for the
    \<open>null\<close> it yields when it fails.
  \<^item> \<open>parseFloat s\<close> is \<open>None\<close> for \<open>NaN\<close>. Numbers are real numbers here: the model
    leaves rounding and the infinities out.
  \<^item> \<open>styleBackgroundColor e\<close> is \<open>e.style.backgroundColor\<close>, empty when there is none.
  \<^item> \<open>svgToDataUrl\<close> is the rendering on a canvas, \<open>None\<close> when the promise is rejected
    (no drawing context).
  \<^item> \<open>pdf_throws c\<close> tells whether the PDF library throws at the call \<open>c\<close>.
\<close>

section \<open>\<open>utils/helpers.ts\<close>\<close>

text \<open>The part of a string after the last separator; all of it, if there is none.\<close>

definition after_last :: "jschar \<Rightarrow> jsstring \<Rightarrow> jsstring" where
  "after_last sep s = last (split_on sep s)"

definition slash :: jschar where
  "slash = 47"

definition question_mark :: jschar where
  "question_mark = 63"

definition dot :: jschar where
  "dot = 46"

definition getFilename :: "env \<Rightarrow> jsstring \<Rightarrow> jsstring" where
  "getFilename E path =
     (case url_pathname E path of
        Some pathname \<Rightarrow> after_last slash pathname
      | None \<Rightarrow>
          (let name = hd (split_on question_mark (after_last slash path))
           in if name \<noteq> [] then name else js ''unknown''))"

text \<open>\<open>/\.(woff|woff2|ttf|otf|eot)$/i.test(name)\<close>.\<close>

definition isFontFile :: "jsstring \<Rightarrow> bool" where
  "isFontFile name \<longleftrightarrow>
     (\<exists>ext \<in> set [js ''.woff'', js ''.woff2'', js ''.ttf'', js ''.otf'', js ''.eot''].
        endsWith (toLowerCase name) ext)"

section \<open>References in style sheets\<close>

text \<open>
  The regular expression \<open>/url\s*\((?:'|")?([^'")]+)(?:'|")?\)/g\<close>. A match starts with
  \<open>url\<close>, white space and an opening parenthesis; an optional quote; the longest run of
  characters other than quotes and the closing parenthesis, which must not be empty and is
  the reference; an optional quote; and the closing parenthesis. No shorter run can match,
  since the character after a shorter run is neither a quote nor the parenthesis.
\<close>

definition is_quote :: "jschar \<Rightarrow> bool" where
  "is_quote c \<longleftrightarrow> c = 39 \<or> c = 34"

definition in_url_class :: "jschar \<Rightarrow> bool" where
  "in_url_class c \<longleftrightarrow> \<not> is_quote c \<and> c \<noteq> 41"

text \<open>
  \<open>match_url_at s\<close>: a match at the start of \<open>s\<close>, as the reference and what follows
  the match.
\<close>

definition match_url_at :: "jsstring \<Rightarrow> (jsstring \<times> jsstring) option" where
  "match_url_at s =
     (if startsWith s (js ''url'') then
        (case dropWhile isSpace (drop 3 s) of
           [] \<Rightarrow> None
         | p # r1 \<Rightarrow>
             if p \<noteq> 40 then None
             else
               let r2 = (case r1 of [] \<Rightarrow> [] | q # r \<Rightarrow> if is_quote q then r else q # r);
                   u = takeWhile in_url_class r2;
                   r3 = dropWhile in_url_class r2;
                   r4 = (case r3 of [] \<Rightarrow> [] | q # r \<Rightarrow> if is_quote q then r else q # r)
               in if u = [] then None
                  else (case r4 of
                          [] \<Rightarrow> None
                        | c # rest \<Rightarrow> if c = 41 then Some (u, rest) else None))
      else None)"

lemma match_url_at_shorter: "match_url_at s = Some (u, rest) \<Longrightarrow> length rest < length s"
proof -
  assume m: "match_url_at s = Some (u, rest)"
  have opt: "length (case r of [] \<Rightarrow> [] | q # r' \<Rightarrow> if is_quote q then r' else q # r') \<le> length r"
    for r :: jsstring
    by (cases r) auto
  from m obtain p r1 where s: "startsWith s (js ''url'')" "dropWhile isSpace (drop 3 s) = p # r1" "p = 40"
    by (auto simp: match_url_at_def split: if_splits list.splits)
  define r2 where "r2 = (case r1 of [] \<Rightarrow> [] | q # r \<Rightarrow> if is_quote q then r else q # r)"
  define r3 where "r3 = dropWhile in_url_class r2"
  define r4 where "r4 = (case r3 of [] \<Rightarrow> [] | q # r \<Rightarrow> if is_quote q then r else q # r)"
  from m s have "(if takeWhile in_url_class r2 = [] then None
                  else (case r4 of
                          [] \<Rightarrow> None
                        | c # rest' \<Rightarrow>
                            if c = 41 then Some (takeWhile in_url_class r2, rest') else None))
                 = Some (u, rest)"
    unfolding r2_def r3_def r4_def by (simp add: match_url_at_def Let_def)
  then have "r4 = 41 # rest"
    by (cases r4) (auto split: if_splits)
  then have "length rest < length r4" by simp
  also have "length r4 \<le> length r3" unfolding r4_def by (rule opt)
  also have "length r3 \<le> length r2" unfolding r3_def by (rule length_dropWhile_le)
  also have "length r2 \<le> length r1" unfolding r2_def by (rule opt)
  also have "length r1 < length (dropWhile isSpace (drop 3 s))" using s by simp
  also have "\<dots> \<le> length (drop 3 s)" by (rule length_dropWhile_le)
  also have "\<dots> \<le> length s" by simp
  finally show ?thesis .
qed

text \<open>\<open>[...css.matchAll(urlRegex)].map(m => m[1])\<close>: the references of all matches.\<close>

function css_urls :: "jsstring \<Rightarrow> jsstring list" where
  "css_urls [] = []"
| "css_urls (c # cs) =
     (case match_url_at (c # cs) of
        Some (u, rest) \<Rightarrow> u # css_urls rest
      | None \<Rightarrow> css_urls cs)"
  by pat_completeness auto
termination
  by (relation "measure length") (auto dest: match_url_at_shorter)

text \<open>
  \<open>s.replace(p, t)\<close> for a string \<open>p\<close>: the first occurrence of \<open>p\<close> in \<open>s\<close> is
  replaced by \<open>t\<close>, in which \<open>$$\<close> stands for a dollar sign, \<open>$&\<close> for \<open>p\<close>, and
  \<open>$`\<close> and \<open>$'\<close> for what comes before and after the occurrence.
\<close>

fun find_split :: "jsstring \<Rightarrow> jsstring \<Rightarrow> (jsstring \<times> jsstring) option" where
  "find_split p [] = (if p = [] then Some ([], []) else None)"
| "find_split p (c # cs) =
     (if startsWith (c # cs) p then Some ([], drop (length p) (c # cs))
      else map_option (\<lambda>(b, a). (c # b, a)) (find_split p cs))"

fun substitute :: "jsstring \<Rightarrow> jsstring \<Rightarrow> jsstring \<Rightarrow> jsstring \<Rightarrow> jsstring" where
  "substitute m b a [] = []"
| "substitute m b a [c] = [c]"
| "substitute m b a (c # d # r) =
     (if c = 36 \<and> d = 36 then 36 # substitute m b a r
      else if c = 36 \<and> d = 38 then m @ substitute m b a r
      else if c = 36 \<and> d = 96 then b @ substitute m b a r
      else if c = 36 \<and> d = 39 then a @ substitute m b a r
      else c # substitute m b a (d # r))"

definition str_replace :: "jsstring \<Rightarrow> jsstring \<Rightarrow> jsstring \<Rightarrow> jsstring" where
  "str_replace s p t =
     (case find_split p s of
        None \<Rightarrow> s
      | Some (b, a) \<Rightarrow> b @ substitute p b a t @ a)"

text \<open>JavaScript's \<open>x || y\<close> and truth of a string that may be \<open>null\<close>.\<close>

definition falsy :: "jsstring option \<Rightarrow> bool" where
  "falsy x \<longleftrightarrow> x = None \<or> x = Some []"

definition js_or :: "jsstring option \<Rightarrow> jsstring option \<Rightarrow> jsstring option" where
  "js_or x y = (if falsy x then y else x)"

text \<open>A state is threaded through the members of a list, in order.\<close>

fun thread :: "('s \<Rightarrow> 'a \<Rightarrow> 's \<times> 'b) \<Rightarrow> 's \<Rightarrow> 'a list \<Rightarrow> 's \<times> 'b list" where
  "thread f s [] = (s, [])"
| "thread f s (x # xs) =
     (let (s1, y) = f s x;
          (s2, ys) = thread f s1 xs
      in (s2, y # ys))"

lemma thread_cong [fundef_cong]:
  "xs = ys \<Longrightarrow> s = t \<Longrightarrow> (\<And>x s. x \<in> set ys \<Longrightarrow> f s x = g s x)
     \<Longrightarrow> thread f s xs = thread g t ys"
  by (induction ys arbitrary: xs s t) (auto simp: Let_def split: prod.splits)

section \<open>Asset resolution (\<open>SvgProcessor.bundleResources\<close>)\<close>

record LocalAsset =
  originalUrl :: jsstring
  localFileName :: jsstring
  blob :: blob

text \<open>
  What a call of \<open>bundleResources\<close> keeps while it runs: the assets and the errors it
  returns, the map from references to local names (a \<open>Map\<close>, as the list of its entries),
  and how many fetches and random draws it has made. The progress it reports through the
  callback is left out.
\<close>

record rstate =
  assets :: "LocalAsset list"
  errors :: "jsstring list"
  urlToFilenameMap :: "(jsstring \<times> jsstring) list"
  fetches :: nat
  draws :: nat

definition initial_rstate :: rstate where
  "initial_rstate = \<lparr>assets = [], errors = [], urlToFilenameMap = [], fetches = 0, draws = 0\<rparr>"

text \<open>
  \<open>assets.push({ originalUrl: href, localFileName: localName, blob })\<close> and
  \<open>urlToFilenameMap.set(href, localName)\<close>.
\<close>

definition record_asset :: "jsstring \<Rightarrow> jsstring \<Rightarrow> blob \<Rightarrow> rstate \<Rightarrow> rstate" where
  "record_asset href localName b st =
     st\<lparr>assets := assets st @ [\<lparr>originalUrl = href, localFileName = localName, blob = b\<rparr>],
        urlToFilenameMap := set_attr href localName (urlToFilenameMap st)\<rparr>"

text \<open>The \<open>catch\<close> of \<open>processAsset\<close>: \<open>errors.push(`Failed to load ${href}: ${e.message}`)\<close>.\<close>

definition record_error :: "jsstring \<Rightarrow> jsstring \<Rightarrow> rstate \<Rightarrow> rstate" where
  "record_error href message st =
     st\<lparr>errors := errors st @ [js ''Failed to load '' @ href @ js '': '' @ message]\<rparr>"

text \<open>The file extension of a synthesized name.\<close>

definition fallback_ext :: "jsstring \<Rightarrow> bool \<Rightarrow> jsstring \<Rightarrow> jsstring" where
  "fallback_ext targetFilename isFont contentType =
     (let ext = (let e = after_last dot targetFilename in if e \<noteq> [] then e else js ''bin'')
      in if isFont \<and> \<not> isFontFile targetFilename then
           if str_includes contentType (js ''woff2'') then js ''woff2''
           else if str_includes contentType (js ''woff'') then js ''woff''
           else if str_includes contentType (js ''ttf'') then js ''ttf''
           else ext
         else ext)"

text \<open>\<open>return localName || null\<close>.\<close>

definition or_null :: "jsstring \<Rightarrow> jsstring option" where
  "or_null s = (if s \<noteq> [] then Some s else None)"

definition processAsset ::
  "env \<Rightarrow> (jsstring \<times> blob) list \<Rightarrow> jsstring \<Rightarrow> bool \<Rightarrow> rstate \<Rightarrow> rstate \<times> jsstring option" where
  "processAsset E preloadedAssets href isFont st =
     (if href = [] \<or> startsWith href (js ''data:'') \<or> startsWith href (js ''#'') then (st, None)
      else
        let localName = map_of (urlToFilenameMap st) href
        in if \<not> falsy localName then (st, localName)
           else
             let targetFilename = getFilename E href
             in (case map_of preloadedAssets targetFilename of
                   Some b \<Rightarrow> (record_asset href targetFilename b st, or_null targetFilename)
                 | None \<Rightarrow>
                     if startsWith href (js ''http'') then
                       let st1 = st\<lparr>fetches := Suc (fetches st)\<rparr>
                       in (case fetch E (fetches st) href of
                             Rejected message \<Rightarrow> (record_error href message st1, None)
                           | Response ok contentType body \<Rightarrow>
                               if \<not> ok then
                                 (record_error href (js ''Failed to fetch '' @ href) st1, None)
                               else
                                 (case body of
                                    Inl message \<Rightarrow> (record_error href message st1, None)
                                  | Inr b \<Rightarrow>
                                      if falsy localName then
                                        let ext = fallback_ext targetFilename isFont
                                                    (case contentType of None \<Rightarrow> [] | Some t \<Rightarrow> t);
                                            hash = random_hash E (draws st1);
                                            st2 = st1\<lparr>draws := Suc (draws st1)\<rparr>;
                                            name = js ''asset_'' @ hash @ js ''.'' @ ext
                                        in (record_asset href name b st2, or_null name)
                                      else
                                        (case localName of
                                           None \<Rightarrow> (st1, None)
                                         | Some name \<Rightarrow> (record_asset href name b st1, or_null name))))
                     else (st, None)))"

text \<open>
  The body of the loop over the image elements, on the attributes of one of them.
\<close>

definition processImage ::
  "env \<Rightarrow> (jsstring \<times> blob) list \<Rightarrow> rstate \<Rightarrow> (jsstring \<times> jsstring) list
     \<Rightarrow> rstate \<times> (jsstring \<times> jsstring) list" where
  "processImage E preloadedAssets st as =
     (case js_or (map_of as (js ''href'')) (map_of as (js ''xlink:href'')) of
        None \<Rightarrow> (st, as)
      | Some href \<Rightarrow>
          if href = [] then (st, as)
          else
            (case processAsset E preloadedAssets href False st of
               (st1, None) \<Rightarrow> (st1, as)
             | (st1, Some localName) \<Rightarrow>
                 let relativePath = js ''images/'' @ localName;
                     as1 = set_attr (js ''href'') relativePath as
                 in (st1, if map_of as1 (js ''xlink:href'') \<noteq> None
                          then set_attr (js ''xlink:href'') relativePath as1 else as1)))"

text \<open>
  \<open>for (const img of imageElements)\<close>: the image elements in document order, each
  changed in place.
\<close>

fun bundleImages :: "env \<Rightarrow> (jsstring \<times> blob) list \<Rightarrow> rstate \<Rightarrow> node \<Rightarrow> rstate \<times> node" where
  "bundleImages E preloadedAssets st (TextNode t) = (st, TextNode t)"
| "bundleImages E preloadedAssets st (CData t) = (st, CData t)"
| "bundleImages E preloadedAssets st (Element n as ks) =
     (let (st1, as1) = (if n = js ''image'' then processImage E preloadedAssets st as else (st, as));
          (st2, ks1) = thread (bundleImages E preloadedAssets) st1 ks
      in (st2, Element n as1 ks1))"

text \<open>
  The body of the loop over the style elements, on the text of one of them: every
  reference that names a font file is resolved, and replaced in the text when it has a
  local name.
\<close>

definition processStyleUrl ::
  "env \<Rightarrow> (jsstring \<times> blob) list \<Rightarrow> jsstring \<Rightarrow> rstate \<times> jsstring \<Rightarrow> rstate \<times> jsstring" where
  "processStyleUrl E preloadedAssets url = (\<lambda>(st, css).
     if isFontFile url then
       (case processAsset E preloadedAssets url True st of
          (st1, None) \<Rightarrow> (st1, css)
        | (st1, Some localName) \<Rightarrow> (st1, str_replace css url (js ''fonts/'' @ localName)))
     else (st, css))"

definition processStyle ::
  "env \<Rightarrow> (jsstring \<times> blob) list \<Rightarrow> rstate \<Rightarrow> jsstring \<Rightarrow> rstate \<times> jsstring" where
  "processStyle E preloadedAssets st css =
     fold (processStyleUrl E preloadedAssets) (css_urls css) (st, css)"

text \<open>\<open>element.textContent = css\<close>: one text node, or no child if the text is empty.\<close>

definition set_textContent :: "jsstring \<Rightarrow> node list" where
  "set_textContent css = (if css = [] then [] else [TextNode css])"

text \<open>
  \<open>for (const item of fontReplacements)\<close>: the style elements whose text has a match, in
  document order. The text of such an element replaces its children. The style elements
  among those children were collected before, so they are processed too, after their
  parent, but they are no longer part of the document.
\<close>

fun bundleStyles :: "env \<Rightarrow> (jsstring \<times> blob) list \<Rightarrow> rstate \<Rightarrow> node \<Rightarrow> rstate \<times> node" where
  "bundleStyles E preloadedAssets st (TextNode t) = (st, TextNode t)"
| "bundleStyles E preloadedAssets st (CData t) = (st, CData t)"
| "bundleStyles E preloadedAssets st (Element n as ks) =
     (if n = js ''style'' \<and> css_urls (concat (map textContent ks)) \<noteq> [] then
        let (st1, css) = processStyle E preloadedAssets st (concat (map textContent ks));
            (st2, detached) = thread (bundleStyles E preloadedAssets) st1 ks
        in (st2, Element n as (set_textContent css))
      else
        let (st1, ks1) = thread (bundleStyles E preloadedAssets) st ks
        in (st1, Element n as ks1))"

record bundle_result =
  content :: node
  result_assets :: "LocalAsset list"
  result_errors :: "jsstring list"

text \<open>The result, or the message of the exception thrown for a document that did not parse.\<close>

definition bundleResources ::
  "env \<Rightarrow> node \<Rightarrow> (jsstring \<times> blob) list \<Rightarrow> jsstring + bundle_result" where
  "bundleResources E svgContent preloadedAssets =
     (if getElementsByTagName (js ''parsererror'') svgContent \<noteq> []
      then Inl (js ''Invalid SVG file format'')
      else
        let (st1, doc1) = bundleImages E preloadedAssets initial_rstate svgContent;
            (st2, doc2) = bundleStyles E preloadedAssets st1 doc1
        in Inr \<lparr>content = doc2, result_assets = assets st2, result_errors = errors st2\<rparr>)"

section \<open>The collection of documents (\<open>App\<close>)\<close>

datatype ProcessingStatus = IDLE | PENDING | PROCESSING | COMPLETED | ERROR

text \<open>
  A file the user drops: its name, and the tree of its text (\<open>await file.text()\<close>).
  \<open>None\<close> stands for the empty text and for \<open>null\<close>: the program only tests a
  content for truth before it uses it, and both are false.
\<close>

record File =
  file_name :: jsstring
  file_text :: "node option"

record ProcessedSVG =
  file_id :: jsstring
  originalFile :: File
  processedContent :: "node option"
  status :: ProcessingStatus
  file_assets :: "LocalAsset list"
  file_errors :: "jsstring list"
  progress :: nat

text \<open>
  The state of the component: the documents, the pool of uploaded assets (a \<open>Map\<close> from
  file names to their content), and the number of identifiers drawn so far.
\<close>

record app =
  files_state :: "ProcessedSVG list"
  preloadedAssets_state :: "(jsstring \<times> blob) list"
  ids_drawn :: nat

text \<open>\<open>map.set(key, value)\<close> on the list of the entries of a \<open>Map\<close>.\<close>

fun map_set :: "jsstring \<Rightarrow> 'v \<Rightarrow> (jsstring \<times> 'v) list \<Rightarrow> (jsstring \<times> 'v) list" where
  "map_set k v [] = [(k, v)]"
| "map_set k v ((k', v') # m) = (if k' = k then (k', v) # m else (k', v') # map_set k v m)"

text \<open>
  \<open>handleFilesAdded\<close>: the assets join the pool, and every new file joins the documents
  with the status \<open>IDLE\<close> and its text as content. \<open>svgProcessor.parse\<close> returns the
  text of the file and checks nothing.
\<close>

definition parse :: "File \<Rightarrow> node option" where
  "parse file = file_text file"

definition new_document :: "env \<Rightarrow> nat \<Rightarrow> File \<Rightarrow> ProcessedSVG" where
  "new_document E n file =
     \<lparr>file_id = generateId E n, originalFile = file, processedContent = parse file,
      status = IDLE, file_assets = [], file_errors = [], progress = 0\<rparr>"

definition handleFilesAdded :: "env \<Rightarrow> File list \<Rightarrow> (jsstring \<times> blob) list \<Rightarrow> app \<Rightarrow> app" where
  "handleFilesAdded E newFiles newAssets st =
     st\<lparr>preloadedAssets_state := fold (\<lambda>(name, b). map_set name b) newAssets (preloadedAssets_state st),
        files_state := files_state st @ map (\<lambda>(n, file). new_document E n file)
                               (enumerate (ids_drawn st) newFiles),
        ids_drawn := ids_drawn st + length newFiles\<rparr>"

definition updateFileStatus :: "jsstring \<Rightarrow> (ProcessedSVG \<Rightarrow> ProcessedSVG) \<Rightarrow> app \<Rightarrow> app" where
  "updateFileStatus ident updates st =
     st\<lparr>files_state := map (\<lambda>f. if file_id f = ident then updates f else f) (files_state st)\<rparr>"

text \<open>
  \<open>bundleFile\<close>, from its start to its end; the progress it shows in between is left out.
\<close>

definition bundleFile :: "env \<Rightarrow> ProcessedSVG \<Rightarrow> app \<Rightarrow> app" where
  "bundleFile E fileItem st =
     (let failed = (\<lambda>message.
            updateFileStatus (file_id fileItem)
              (\<lambda>f. f\<lparr>status := ERROR, progress := 100, file_errors := [message]\<rparr>) st)
      in case processedContent fileItem of
           None \<Rightarrow> failed (js ''No content to process'')
         | Some c \<Rightarrow>
             (case bundleResources E c (preloadedAssets_state st) of
                Inl message \<Rightarrow> failed message
              | Inr result \<Rightarrow>
                  updateFileStatus (file_id fileItem)
                    (\<lambda>f. f\<lparr>status := COMPLETED, processedContent := Some (content result),
                           file_assets := result_assets result,
                           file_errors := result_errors result, progress := 100\<rparr>) st))"

definition getValidFiles :: "app \<Rightarrow> ProcessedSVG list" where
  "getValidFiles st = filter (\<lambda>f. status f = COMPLETED \<or> status f = IDLE) (files_state st)"

section \<open>The archive (\<open>downloadZip\<close>)\<close>

text \<open>
  The archive: the files at its top, and those of its folders \<open>images\<close> and \<open>fonts\<close>.
  \<open>zip.file(name, data)\<close> replaces a file of the same name. \<open>addedAssets\<close> is the set
  of the names of the assets written so far.
\<close>

record zip =
  zip_files :: "(jsstring \<times> node) list"
  imagesFolder :: "(jsstring \<times> blob) list"
  fontsFolder :: "(jsstring \<times> blob) list"
  addedAssets :: "jsstring list"

definition addAssetToZip :: "jsstring \<Rightarrow> blob \<Rightarrow> zip \<Rightarrow> zip" where
  "addAssetToZip filename b z =
     (if filename \<in> set (addedAssets z) then z
      else
        (if isFontFile filename then z\<lparr>fontsFolder := map_set filename b (fontsFolder z)\<rparr>
         else z\<lparr>imagesFolder := map_set filename b (imagesFolder z)\<rparr>)
        \<lparr>addedAssets := addedAssets z @ [filename]\<rparr>)"

text \<open>The body of \<open>validFiles.forEach\<close>.\<close>

definition zip_document :: "ProcessedSVG \<Rightarrow> zip \<Rightarrow> zip" where
  "zip_document file z =
     (let z1 = (case processedContent file of
                  None \<Rightarrow> z
                | Some c \<Rightarrow>
                    let redactedContent = redact c
                    in z\<lparr>zip_files := map_set (file_name (originalFile file)) redactedContent
                                         (zip_files z)\<rparr>)
      in fold (\<lambda>asset. addAssetToZip (localFileName asset) (blob asset)) (file_assets file) z1)"

text \<open>The archive that is saved; none when no document is valid.\<close>

definition downloadZip :: "app \<Rightarrow> zip option" where
  "downloadZip st =
     (let validFiles = getValidFiles st
      in if validFiles = [] then None
         else
           let z0 = \<lparr>zip_files = [], imagesFolder = [], fontsFolder = [], addedAssets = []\<rparr>;
               z1 = fold (\<lambda>(filename, b). addAssetToZip filename b) (preloadedAssets_state st) z0
           in Some (fold zip_document validFiles z1))"

section \<open>The paginated export (\<open>PdfGenerator\<close>)\<close>

text \<open>
  \<open>findBlob\<close>: the asset of the document with the file name of the reference, or else
  the entry of the pool.
\<close>

definition findBlob :: "env \<Rightarrow> ProcessedSVG \<Rightarrow> (jsstring \<times> blob) list \<Rightarrow> jsstring \<Rightarrow> blob option" where
  "findBlob E file pool path =
     (let name = getFilename E path
      in case find (\<lambda>a. localFileName a = name) (file_assets file) of
           Some localAsset \<Rightarrow> Some (blob localAsset)
         | None \<Rightarrow> map_of pool name)"

text \<open>
  The loop over the images of \<open>embedAssets\<close>, on the attributes of one image. A data URL
  of \<open>null\<close> is written as the string \<open>null\<close>.
\<close>

definition embedImage ::
  "env \<Rightarrow> ProcessedSVG \<Rightarrow> (jsstring \<times> blob) list \<Rightarrow> (jsstring \<times> jsstring) list
     \<Rightarrow> (jsstring \<times> jsstring) list" where
  "embedImage E file pool as =
     (case js_or (map_of as (js ''href'')) (map_of as (js ''xlink:href'')) of
        None \<Rightarrow> as
      | Some href \<Rightarrow>
          if href = [] then as
          else
            (case findBlob E file pool href of
               None \<Rightarrow> as
             | Some b \<Rightarrow>
                 let base64 = (case blobToBase64 E b of None \<Rightarrow> js ''null'' | Some s \<Rightarrow> s)
                 in filter (\<lambda>(k, v). k \<noteq> js ''xlink:href'') (set_attr (js ''href'') base64 as)))"

fun embedImages :: "env \<Rightarrow> ProcessedSVG \<Rightarrow> (jsstring \<times> blob) list \<Rightarrow> node \<Rightarrow> node" where
  "embedImages E file pool (TextNode t) = TextNode t"
| "embedImages E file pool (CData t) = CData t"
| "embedImages E file pool (Element n as ks) =
     Element n (if n = js ''image'' then embedImage E file pool as else as)
       (map (embedImages E file pool) ks)"

definition font_mime :: "jsstring \<Rightarrow> jsstring" where
  "font_mime url =
     (let lowerUrl = toLowerCase url
      in if endsWith lowerUrl (js ''.woff2'') then js ''font/woff2''
         else if endsWith lowerUrl (js ''.woff'') then js ''font/woff''
         else if endsWith lowerUrl (js ''.ttf'') then js ''font/ttf''
         else if endsWith lowerUrl (js ''.otf'') then js ''application/font-sfnt''
         else if endsWith lowerUrl (js ''.eot'') then js ''application/vnd.ms-fontobject''
         else js ''application/octet-stream'')"

text \<open>
  One reference of a style sheet. \<open>None\<close> is the exception of \<open>rawDataUri.split\<close> on a
  data URL of \<open>null\<close>; a data URL without a comma gives the content \<open>undefined\<close>.
\<close>

definition embedStyleUrl ::
  "env \<Rightarrow> ProcessedSVG \<Rightarrow> (jsstring \<times> blob) list \<Rightarrow> jsstring \<Rightarrow> jsstring option
     \<Rightarrow> jsstring option" where
  "embedStyleUrl E file pool url acc =
     (case acc of
        None \<Rightarrow> None
      | Some css \<Rightarrow>
          if isFontFile url then
            (case findBlob E file pool url of
               None \<Rightarrow> Some css
             | Some b \<Rightarrow>
                 (case blobToBase64 E b of
                    None \<Rightarrow> None
                  | Some rawDataUri \<Rightarrow>
                      let base64Content = (case split_on comma rawDataUri of
                                             x # y # r \<Rightarrow> y
                                           | _ \<Rightarrow> js ''undefined'');
                          correctDataUri = js ''data:'' @ font_mime url @ js '';base64,''
                                             @ base64Content
                      in Some (str_replace css url correctDataUri)))
          else Some css)"

definition embedStyle ::
  "env \<Rightarrow> ProcessedSVG \<Rightarrow> (jsstring \<times> blob) list \<Rightarrow> jsstring \<Rightarrow> jsstring option" where
  "embedStyle E file pool css = fold (embedStyleUrl E file pool) (css_urls css) (Some css)"

text \<open>
  The loop over the style elements of \<open>embedAssets\<close>: the text of every style element
  replaces its children. The style elements among those children are processed as well,
  outside the document, and may throw.
\<close>

fun embedStyles :: "env \<Rightarrow> ProcessedSVG \<Rightarrow> (jsstring \<times> blob) list \<Rightarrow> node \<Rightarrow> node option" where
  "embedStyles E file pool (TextNode t) = Some (TextNode t)"
| "embedStyles E file pool (CData t) = Some (CData t)"
| "embedStyles E file pool (Element n as ks) =
     (case those (map (embedStyles E file pool) ks) of
        None \<Rightarrow> None
      | Some ks1 \<Rightarrow>
          if n = js ''style'' then
            map_option (\<lambda>css. Element n as (set_textContent css))
              (embedStyle E file pool (concat (map textContent ks)))
          else Some (Element n as ks1))"

text \<open>\<open>embedAssets\<close>; \<open>None\<close> when it throws.\<close>

definition embedAssets ::
  "env \<Rightarrow> node \<Rightarrow> ProcessedSVG \<Rightarrow> (jsstring \<times> blob) list \<Rightarrow> node option" where
  "embedAssets E svgContent file pool =
     (if getElementsByTagName (js ''parsererror'') svgContent \<noteq> [] then Some svgContent
      else embedStyles E file pool (embedImages E file pool svgContent))"

text \<open>\<open>s.split(/[\s,]+/)\<close>.\<close>

definition is_sep :: "jschar \<Rightarrow> bool" where
  "is_sep c \<longleftrightarrow> isSpace c \<or> c = comma"

function split_seps :: "jsstring \<Rightarrow> jsstring list" where
  "split_seps [] = [[]]"
| "split_seps (c # cs) =
     (if is_sep c then [] # split_seps (dropWhile is_sep cs)
      else (case split_seps cs of
              [] \<Rightarrow> [[c]]
            | w # ws \<Rightarrow> (c # w) # ws))"
  by pat_completeness auto
termination
  by (relation "measure length") (auto simp: less_Suc_eq_le length_dropWhile_le)

text \<open>A number is false when it is zero or \<open>NaN\<close>.\<close>

definition num_falsy :: "real option \<Rightarrow> bool" where
  "num_falsy x \<longleftrightarrow> x = None \<or> x = Some 0"

text \<open>
  \<open>doc.querySelector('svg')\<close>: the first element whose local name is \<open>svg\<close>, in any
  namespace, with the scope inside it.
\<close>

definition querySelector_svg :: "node \<Rightarrow> (scope \<times> node) option" where
  "querySelector_svg doc =
     find (\<lambda>(sc, e). local_name e = js ''svg'') (scoped_elements outermost doc)"

definition getSvgDimensions :: "env \<Rightarrow> node \<Rightarrow> real \<times> real" where
  "getSvgDimensions E doc =
     (case querySelector_svg doc of
        None \<Rightarrow> (100, 100)
      | Some (sc, svg) \<Rightarrow>
          let widthAttr = getAttribute svg (js ''width'');
              heightAttr = getAttribute svg (js ''height'');
              viewBoxAttr = getAttribute svg (js ''viewBox'');
              (w0, h0) = (if \<not> falsy viewBoxAttr then
                            let parts = map (parseFloat E)
                                          (split_seps (case viewBoxAttr of Some v \<Rightarrow> v | None \<Rightarrow> []))
                            in if length parts = 4 then (parts ! 2, parts ! 3) else (Some 0, Some 0)
                          else (Some 0, Some 0));
              (w1, h1) = (if (num_falsy w0 \<or> num_falsy h0) \<and> \<not> falsy widthAttr \<and> \<not> falsy heightAttr
                          then
                            (let pw = parseFloat E (case widthAttr of Some v \<Rightarrow> v | None \<Rightarrow> []);
                                 ph = parseFloat E (case heightAttr of Some v \<Rightarrow> v | None \<Rightarrow> [])
                             in (if num_falsy pw then Some 0 else pw,
                                 if num_falsy ph then Some 0 else ph))
                          else (w0, h0))
          in if num_falsy w1 \<or> num_falsy h1 then (210, 297)
             else (case (w1, h1) of
                     (Some w, Some h) \<Rightarrow> (w, h)
                   | _ \<Rightarrow> (210, 297)))"

text \<open>
  An element has a \<open>style\<close> when it is an SVG, an HTML or a MathML element, which goes by
  its namespace. For any other element \<open>svg.style\<close> is undefined.
\<close>

definition XHTML_NS :: jsstring where
  "XHTML_NS = js ''http://www.w3.org/1999/xhtml''"

definition MATHML_NS :: jsstring where
  "MATHML_NS = js ''http://www.w3.org/1998/Math/MathML''"

definition has_style :: "jsstring option \<Rightarrow> bool" where
  "has_style ns \<longleftrightarrow> ns = Some SVG_NS \<or> ns = Some XHTML_NS \<or> ns = Some MATHML_NS"

text \<open>
  \<open>detectBackgroundColor\<close>; \<open>None\<close> for \<open>null\<close>. Reading \<open>svg.style.backgroundColor\<close> of an
  element without a \<open>style\<close> throws, and the \<open>catch\<close> returns \<open>null\<close>.
\<close>

definition detectBackgroundColor :: "env \<Rightarrow> node \<Rightarrow> jsstring option" where
  "detectBackgroundColor E doc =
     (case querySelector_svg doc of
        None \<Rightarrow> None
      | Some (sc, svg) \<Rightarrow>
          if \<not> has_style (namespaceURI sc (tagName svg)) then None
          else if styleBackgroundColor E svg \<noteq> [] then Some (styleBackgroundColor E svg)
          else
            let width = getAttribute svg (js ''width'');
                height = getAttribute svg (js ''height'')
            in (case find (\<lambda>rect.
                             (getAttribute rect (js ''width'') = Some (js ''100%'')
                              \<and> getAttribute rect (js ''height'') = Some (js ''100%''))
                             \<or> (getAttribute rect (js ''width'') = width
                                 \<and> getAttribute rect (js ''height'') = height))
                        (getElementsByTagName (js ''rect'') doc) of
                  None \<Rightarrow> None
                | Some rect \<Rightarrow> getAttribute rect (js ''fill'')))"

text \<open>
  The PDF document: its pages in order. A page records the iteration of the loop that
  added it and in which role, the format and orientation it was added with (none for the
  library's default), and what was drawn on it.
\<close>

datatype page_origin = Rendered nat | InsideCover | ErrorPage nat

record pdf_page =
  origin :: page_origin
  page_format :: "(orientation \<times> real \<times> real) option"
  contents :: "pdf_op list"

definition add_page :: "pdf_page \<Rightarrow> pdf_page list option \<Rightarrow> pdf_page list option" where
  "add_page p doc = (case doc of None \<Rightarrow> Some [p] | Some ps \<Rightarrow> Some (ps @ [p]))"

text \<open>Drawing goes to the page added last.\<close>

definition draw :: "pdf_op \<Rightarrow> pdf_page list option \<Rightarrow> pdf_page list option" where
  "draw op doc =
     (case doc of
        None \<Rightarrow> None
      | Some ps \<Rightarrow>
          if ps = [] then Some []
          else Some (butlast ps @ [(last ps)\<lparr>contents := contents (last ps) @ [op]\<rparr>]))"

definition pdfWidth :: real where
  "pdfWidth = 210"

definition pixelScale :: real where
  "pixelScale = 12"

text \<open>
  The colour of the inside cover: \<open>bgColor\<close>, detected from the second document.
\<close>

definition coverColor :: "env \<Rightarrow> ProcessedSVG list \<Rightarrow> jsstring" where
  "coverColor E files =
     (let nextFile = files ! 1
      in case processedContent nextFile of
           None \<Rightarrow> js ''#FFFFFF''
         | Some c \<Rightarrow>
             let detected = detectBackgroundColor E c
             in if falsy detected then js ''#FFFFFF''
                else (case detected of Some col \<Rightarrow> col | None \<Rightarrow> js ''#FFFFFF''))"

text \<open>
  The inside cover, added after the first page when there are more documents. The result
  tells whether the block ran to its end (\<open>True\<close>) or an exception left it.
\<close>

definition insideCover ::
  "env \<Rightarrow> ProcessedSVG list \<Rightarrow> real \<Rightarrow> orientation \<Rightarrow> pdf_page list option
     \<Rightarrow> pdf_page list option \<times> bool" where
  "insideCover E files pdfHeight orientation doc =
     (let bgColor = coverColor E files
      in if pdf_throws E (AddPage orientation pdfWidth pdfHeight) then (doc, False)
         else
           let doc1 = add_page \<lparr>origin = InsideCover,
                                page_format = Some (orientation, pdfWidth, pdfHeight),
                                contents = []\<rparr> doc
           in if toLowerCase bgColor \<noteq> js ''#ffffff'' \<and> toLowerCase bgColor \<noteq> js ''white'' then
                if pdf_throws E (Draw (SetFillColor bgColor)) then (doc1, False)
                else if pdf_throws E (Draw (Rect pdfWidth pdfHeight))
                  then (draw (SetFillColor bgColor) doc1, False)
                else (draw (Rect pdfWidth pdfHeight) (draw (SetFillColor bgColor) doc1), True)
              else (doc1, True))"

text \<open>The \<open>try\<close> block of the loop, for the document \<open>file\<close> at index \<open>i\<close> with content \<open>c\<close>.\<close>

definition render_page ::
  "env \<Rightarrow> ProcessedSVG list \<Rightarrow> (jsstring \<times> blob) list \<Rightarrow> nat \<Rightarrow> ProcessedSVG \<Rightarrow> node
     \<Rightarrow> pdf_page list option \<Rightarrow> pdf_page list option \<times> bool" where
  "render_page E files pool i file c doc =
     (let redactedContent = redact c
      in case embedAssets E redactedContent file pool of
           None \<Rightarrow> (doc, False)
         | Some embeddedSvg \<Rightarrow>
             let (svgW, svgH) = getSvgDimensions E embeddedSvg;
                 aspectRatio = svgW / svgH;
                 pdfHeight = pdfWidth / aspectRatio;
                 orientation = (if pdfWidth > pdfHeight then Landscape else Portrait)
             in if pdf_throws E (if doc = None then NewDocument orientation pdfWidth pdfHeight
                                 else AddPage orientation pdfWidth pdfHeight)
                then (doc, False)
                else
                  let doc1 = add_page \<lparr>origin = Rendered i,
                                       page_format = Some (orientation, pdfWidth, pdfHeight),
                                       contents = []\<rparr> doc
                  in (case svgToDataUrl E embeddedSvg (pdfWidth * pixelScale)
                             (pdfHeight * pixelScale) of
                        None \<Rightarrow> (doc1, False)
                      | Some dataUrl \<Rightarrow>
                          if pdf_throws E (Draw (AddImage dataUrl pdfWidth pdfHeight))
                          then (doc1, False)
                          else
                            let doc2 = draw (AddImage dataUrl pdfWidth pdfHeight) doc1
                            in if i = 0 \<and> length files > 1
                               then insideCover E files pdfHeight orientation doc2
                               else (doc2, True)))"

text \<open>
  One iteration of the loop, on the document and the list of the page numbers reported to
  the console as failed. The \<open>catch\<close> block adds a page of the library's default format
  and writes the name of the file on it; these two calls, which take nothing that was
  computed from the page, are taken not to throw.
\<close>

definition generate_step ::
  "env \<Rightarrow> ProcessedSVG list \<Rightarrow> (jsstring \<times> blob) list \<Rightarrow> nat \<times> ProcessedSVG
     \<Rightarrow> pdf_page list option \<times> nat list \<Rightarrow> pdf_page list option \<times> nat list" where
  "generate_step E files pool = (\<lambda>(i, file) (doc, failed).
     case processedContent file of
       None \<Rightarrow> (doc, failed)
     | Some c \<Rightarrow>
         (case render_page E files pool i file c doc of
            (doc1, True) \<Rightarrow> (doc1, failed)
          | (doc1, False) \<Rightarrow>
              (draw (PdfText (js ''Error processing page: '' @ file_name (originalFile file)))
                 (add_page \<lparr>origin = ErrorPage i, page_format = None, contents = []\<rparr> doc1),
               failed @ [i + 1])))"

text \<open>
  \<open>generate\<close>: the document that is saved, if any, and the page numbers reported as failed.
\<close>

definition generate ::
  "env \<Rightarrow> ProcessedSVG list \<Rightarrow> (jsstring \<times> blob) list \<Rightarrow> pdf_page list option \<times> nat list" where
  "generate E files pool = fold (generate_step E files pool) (enumerate 0 files) (None, [])"

section \<open>Views of the tree used in the proofs\<close>

text \<open>The tag name and the attributes of every element, in document order.\<close>

fun heads :: "node \<Rightarrow> (jsstring \<times> (jsstring \<times> jsstring) list) list" where
  "heads (TextNode t) = []"
| "heads (CData t) = []"
| "heads (Element n as ks) = (n, as) # concat (map heads ks)"

text \<open>The number of elements that carry a given identifier.\<close>

definition count_id :: "jsstring \<Rightarrow> node \<Rightarrow> nat" where
  "count_id v d = length (filter (\<lambda>e. getAttribute e (js ''id'') = Some v) (elements d))"

text \<open>\<open>imagesToRedact\<close>: the images the transform blurs.\<close>

definition redactionTargets :: "node \<Rightarrow> node list" where
  "redactionTargets d = filter shouldRedact (getElementsByTagName (js ''image'') d)"

definition has_id :: "jsstring \<Rightarrow> jsstring \<times> (jsstring \<times> jsstring) list \<Rightarrow> bool" where
  "has_id v h \<longleftrightarrow> map_of (snd h) (js ''id'') = Some v"

definition is_target :: "jsstring \<times> (jsstring \<times> jsstring) list \<Rightarrow> bool" where
  "is_target h \<longleftrightarrow> fst h = js ''image'' \<and> shouldRedact (Element (fst h) (snd h) [])"

text \<open>What \<open>setFilters\<close> does to the attributes of one element.\<close>

definition sf :: "jsstring \<times> (jsstring \<times> jsstring) list \<Rightarrow> jsstring \<times> (jsstring \<times> jsstring) list" where
  "sf h = (if is_target h then (fst h, set_attr (js ''filter'') filter_url (snd h)) else h)"

text \<open>
  The blur filter: an element \<open>filter\<close> with the identifier
  \<open>redact-blur\<close> and its region, whose only child is a Gaussian blur.
\<close>

definition is_blur :: "node \<Rightarrow> bool" where
  "is_blur b \<longleftrightarrow>
     local_name b = js ''feGaussianBlur''
     \<and> getAttribute b (js ''stdDeviation'') = Some (js ''150'')
     \<and> childNodes b = []"

definition is_blur_filter :: "node \<Rightarrow> bool" where
  "is_blur_filter f \<longleftrightarrow>
     local_name f = js ''filter''
     \<and> getAttribute f (js ''id'') = Some (js ''redact-blur'')
     \<and> getAttribute f (js ''x'') = Some (js ''-50%'')
     \<and> getAttribute f (js ''y'') = Some (js ''-50%'')
     \<and> getAttribute f (js ''width'') = Some (js ''200%'')
     \<and> getAttribute f (js ''height'') = Some (js ''200%'')
     \<and> (case childNodes f of [b] \<Rightarrow> is_blur b | _ \<Rightarrow> False)"

text \<open>
  Where the blur filter is in the page \<open>d'\<close> that the transform makes of the page \<open>d\<close>:
  it is the last child of the first element \<open>defs\<close>, which has one child more than the
  first element \<open>defs\<close> of \<open>d\<close>; if \<open>d\<close> has no such element, the first child of the root
  of \<open>d'\<close> is a new definitions element, ahead of the children that the root had, and the
  blur filter is its only child.
\<close>

definition filter_in_defs :: "node \<Rightarrow> node \<Rightarrow> bool" where
  "filter_in_defs d d' =
     (case getElementsByTagName (js ''defs'') d of
        [] \<Rightarrow>
          (case childNodes d' of
             [] \<Rightarrow> False
           | dfs # rest \<Rightarrow>
               local_name dfs = js ''defs'' \<and> length rest = length (childNodes d)
               \<and> (case childNodes dfs of [f] \<Rightarrow> is_blur_filter f | _ \<Rightarrow> False))
      | e # es \<Rightarrow>
          (case getElementsByTagName (js ''defs'') d' of
             [] \<Rightarrow> False
           | e' # es' \<Rightarrow>
               length (childNodes e') = Suc (length (childNodes e))
               \<and> is_blur_filter (last (childNodes e'))))"

text \<open>
  The transform of the text inside \<open>k\<close> tagged containers: the walks of the \<open>k\<close>
  containers come on top of what \<open>redactText\<close> does within.
\<close>

definition redactText_in :: "nat \<Rightarrow> node \<Rightarrow> node" where
  "redactText_in k d = (redactTextNodes ^^ k) (redactText d)"

text \<open>A text container that the transform masks, by its name and attributes.\<close>

definition is_container :: "jsstring \<times> (jsstring \<times> jsstring) list \<Rightarrow> bool" where
  "is_container h \<longleftrightarrow>
     (fst h = js ''text'' \<or> fst h = js ''tspan'') \<and> shouldRedact (Element (fst h) (snd h) [])"

text \<open>
  The text nodes of a tree in document order, each with the number of tagged text
  containers it lies in, starting from \<open>k\<close>; and the \<open>CDATA\<close> sections.
\<close>

fun texts :: "nat \<Rightarrow> node \<Rightarrow> (nat \<times> jsstring) list" where
  "texts k (TextNode t) = [(k, t)]"
| "texts k (CData t) = []"
| "texts k (Element n as ks) =
     concat (map (texts (if is_container (n, as) then Suc k else k)) ks)"

fun cdata_sections :: "node \<Rightarrow> jsstring list" where
  "cdata_sections (TextNode t) = []"
| "cdata_sections (CData t) = [t]"
| "cdata_sections (Element n as ks) = concat (map cdata_sections ks)"

text \<open>The elements that carry tags, in document order: the name and the tags of each.\<close>

definition tag_of :: "jsstring \<times> (jsstring \<times> jsstring) list \<Rightarrow> (jsstring \<times> jsstring) list" where
  "tag_of h = (case map_of (snd h) (js ''data-tags'') of None \<Rightarrow> [] | Some v \<Rightarrow> [(fst h, v)])"

definition tagged_elements :: "node \<Rightarrow> (jsstring \<times> jsstring) list" where
  "tagged_elements d = concat (map tag_of (heads d))"

text \<open>The last step of the click handler: writing the tag list back.\<close>

definition write_tags :: "jsstring list \<Rightarrow> node \<Rightarrow> node" where
  "write_tags T e =
     (let newTags = join comma T
      in if newTags \<noteq> [] then setAttribute (js ''data-tags'') newTags e
         else removeAttribute (js ''data-tags'') e)"

section \<open>Example pages\<close>

definition tagged_page :: node where
  "tagged_page =
     Element (js ''svg'') [(js ''viewBox'', js ''0 0 100 100'')]
       [Element (js ''image'') [(js ''href'', js ''a.jpg''), (js ''data-tags'', js ''redact-image'')] [],
        Element (js ''text'') [(js ''data-tags'', js ''redact-text'')] [TextNode (js ''Hi'')]]"

text \<open>A page with a tagged image in which a rectangle has the identifier of the filter.\<close>

definition rect_page :: node where
  "rect_page =
     Element (js ''svg'') [(js ''xmlns'', js ''http://www.w3.org/2000/svg'')]
       [Element (js ''rect'') [(js ''id'', js ''redact-blur'')] [],
        Element (js ''image'') [(js ''data-tags'', js ''redact-image'')] []]"

text \<open>The page of the specification's scenario C.\<close>

definition hello_page :: node where
  "hello_page =
     Element (js ''svg'') []
       [Element (js ''text'') [(js ''data-tags'', js ''redact-text'')]
          [TextNode (js ''Hello World'')]]"

section \<open>An example environment\<close>

text \<open>
  \<open>parseFloat\<close> on a string of decimal digits, \<open>NaN\<close> on the other strings.
\<close>

definition decimal :: "jsstring \<Rightarrow> real option" where
  "decimal s =
     (if s \<noteq> [] \<and> (\<forall>c \<in> set s. 48 \<le> c \<and> c \<le> 57)
      then Some (fold (\<lambda>c n. 10 * n + real (unat c - 48)) s 0)
      else None)"

text \<open>
  An environment in which the address \<open>https://ex.com/a.jpg\<close> can be fetched and no
  other, every random draw gives \<open>k3x9qz\<close>, elements have no background style, and
  neither the canvas nor the PDF library fails.
\<close>

definition example_env :: env where
  "example_env =
     \<lparr>url_pathname = (\<lambda>u. if u = js ''https://ex.com/a.jpg'' then Some (js ''/a.jpg'') else None),
      fetch = (\<lambda>n u. if u = js ''https://ex.com/a.jpg''
                      then Response True (Some (js ''image/jpeg'')) (Inr [255, 216])
                      else Rejected (js ''Failed to fetch'')),
      random_hash = (\<lambda>n. js ''k3x9qz''),
      generateId = (\<lambda>n. replicate (Suc n) 120),
      blobToBase64 = (\<lambda>b. Some (js ''data:application/octet-stream;base64,'')),
      parseFloat = decimal,
      styleBackgroundColor = (\<lambda>e. []),
      svgToDataUrl = (\<lambda>d w h. Some (js ''data:image/jpeg;base64,'')),
      pdf_throws = (\<lambda>c. False)\<rparr>"

text \<open>The page of the specification's scenario A, and a page with a reference to nothing.\<close>

definition scenario_A :: node where
  "scenario_A =
     Element (js ''svg'') [] [Element (js ''image'') [(js ''href'', js ''https://ex.com/a.jpg'')] []]"

definition missing_page :: node where
  "missing_page =
     Element (js ''svg'') [] [Element (js ''image'') [(js ''href'', js ''missing.png'')] []]"

section \<open>Notions used in the claims on asset resolution\<close>

text \<open>The name \<open>processAsset\<close> gives to an asset it has fetched.\<close>

definition synthesized :: "env \<Rightarrow> jsstring \<Rightarrow> bool \<Rightarrow> jsstring option \<Rightarrow> rstate \<Rightarrow> jsstring" where
  "synthesized E href isFont contentType st =
     js ''asset_'' @ random_hash E (draws st) @ js ''.''
       @ fallback_ext (getFilename E href) isFont (case contentType of None \<Rightarrow> [] | Some t \<Rightarrow> t)"

text \<open>
  A reference that \<open>processAsset\<close> looks at and that is neither a network address nor
  the name of an asset of the pool.
\<close>

definition unresolvable :: "env \<Rightarrow> (jsstring \<times> blob) list \<Rightarrow> jsstring \<Rightarrow> bool" where
  "unresolvable E pool href \<longleftrightarrow>
     href \<noteq> [] \<and> \<not> startsWith href (js ''data:'') \<and> \<not> startsWith href (js ''#'')
     \<and> \<not> startsWith href (js ''http'') \<and> map_of pool (getFilename E href) = None"

text \<open>The reference of an image element: \<open>getAttribute('href') || getAttribute('xlink:href')\<close>.\<close>

definition image_reference :: "(jsstring \<times> jsstring) list \<Rightarrow> jsstring option" where
  "image_reference as = js_or (map_of as (js ''href'')) (map_of as (js ''xlink:href''))"

text \<open>
  An element before and after the loop over the images: the tag name stays, and so do the
  attributes of an image whose reference is unresolvable.
\<close>

definition kept_if_unresolvable ::
  "env \<Rightarrow> (jsstring \<times> blob) list \<Rightarrow> jsstring \<times> (jsstring \<times> jsstring) list
     \<Rightarrow> jsstring \<times> (jsstring \<times> jsstring) list \<Rightarrow> bool" where
  "kept_if_unresolvable E pool h h' \<longleftrightarrow>
     fst h' = fst h
     \<and> (fst h = js ''image''
          \<and> (case image_reference (snd h) of None \<Rightarrow> False | Some href \<Rightarrow> unresolvable E pool href)
        \<longrightarrow> snd h' = snd h)"

text \<open>An error message that names a network address.\<close>

definition network_error :: "jsstring \<Rightarrow> bool" where
  "network_error e \<longleftrightarrow>
     (\<exists>href message. startsWith href (js ''http'')
        \<and> e = js ''Failed to load '' @ href @ js '': '' @ message)"

text \<open>
  What holds of the state of \<open>bundleResources\<close> all along: a reference with a local name
  is a network address or names an asset of the pool, and every error names a network
  address.
\<close>

definition resolver_inv :: "env \<Rightarrow> (jsstring \<times> blob) list \<Rightarrow> rstate \<Rightarrow> bool" where
  "resolver_inv E pool st \<longleftrightarrow>
     (\<forall>href name. map_of (urlToFilenameMap st) href = Some name
        \<longrightarrow> startsWith href (js ''http'') \<or> map_of pool (getFilename E href) \<noteq> None)
     \<and> (\<forall>e\<in>set (errors st). network_error e)"

section \<open>Notions used in the claims on the collection and the archive\<close>

text \<open>A document that did not parse, as \<open>bundleResources\<close> recognises it.\<close>

definition malformed :: "node \<Rightarrow> bool" where
  "malformed c \<longleftrightarrow> getElementsByTagName (js ''parsererror'') c \<noteq> []"

text \<open>The valid documents of a given name that have a content, in the order of the collection.\<close>

definition named_content :: "jsstring \<Rightarrow> ProcessedSVG \<Rightarrow> bool" where
  "named_content name g \<longleftrightarrow> file_name (originalFile g) = name \<and> processedContent g \<noteq> None"

definition archived :: "app \<Rightarrow> jsstring \<Rightarrow> ProcessedSVG list" where
  "archived st name = filter (named_content name) (getValidFiles st)"

text \<open>The tree of a text that the parser rejects.\<close>

definition malformed_page :: node where
  "malformed_page = Element (js ''parsererror'') [] [TextNode (js ''error on line 1'')]"

definition empty_app :: app where
  "empty_app = \<lparr>files_state = [], preloadedAssets_state = [], ids_drawn = 0\<rparr>"

text \<open>A collection that holds the page of scenario C, not bundled.\<close>

definition hello_app :: app where
  "hello_app =
     \<lparr>files_state =
        [\<lparr>file_id = js ''x'',
          originalFile = \<lparr>file_name = js ''page.svg'', file_text = Some hello_page\<rparr>,
          processedContent = Some hello_page, status = IDLE, file_assets = [],
          file_errors = [], progress = 0\<rparr>],
      preloadedAssets_state = [], ids_drawn = 1\<rparr>"

text \<open>A file whose text the parser rejects.\<close>

definition bad_file :: File where
  "bad_file = \<lparr>file_name = js ''bad.svg'', file_text = Some malformed_page\<rparr>"

section \<open>Notions used in the claims on the paginated export\<close>

text \<open>The pages of the document; none when there is no document.\<close>

definition pages :: "pdf_page list option \<Rightarrow> pdf_page list" where
  "pages doc = (case doc of None \<Rightarrow> [] | Some ps \<Rightarrow> ps)"

text \<open>
  A page rendered from the document at index \<open>i\<close>, and an inside cover, of a given format.
  An inside cover is blank: nothing is drawn on it but, at most, a fill with a colour.
\<close>

definition is_rendered :: "nat \<Rightarrow> orientation \<times> real \<times> real \<Rightarrow> pdf_page \<Rightarrow> bool" where
  "is_rendered i F p \<longleftrightarrow> origin p = Rendered i \<and> page_format p = Some F"

fun is_fill :: "pdf_op \<Rightarrow> bool" where
  "is_fill (SetFillColor c) = True"
| "is_fill (Rect w h) = True"
| "is_fill (AddImage u w h) = False"
| "is_fill (PdfText t) = False"

definition is_cover :: "orientation \<times> real \<times> real \<Rightarrow> pdf_page \<Rightarrow> bool" where
  "is_cover F p \<longleftrightarrow>
     origin p = InsideCover \<and> page_format p = Some F \<and> list_all is_fill (contents p)"

text \<open>The placeholder page for the document at index \<open>i\<close>.\<close>

definition placeholder :: "nat \<Rightarrow> ProcessedSVG \<Rightarrow> pdf_page" where
  "placeholder i file =
     \<lparr>origin = ErrorPage i, page_format = None,
      contents = [PdfText (js ''Error processing page: '' @ file_name (originalFile file))]\<rparr>"

text \<open>
  The pages that the \<open>try\<close> block can add for the document at index \<open>i\<close> of \<open>n\<close>,
  by whether it runs to its end: none or the rendered page if it does not; the
  rendered page, and after it the inside cover for the first of several documents.
\<close>

definition render_shape :: "nat \<Rightarrow> nat \<Rightarrow> bool \<Rightarrow> pdf_page list \<Rightarrow> bool" where
  "render_shape i n ok new \<longleftrightarrow>
     (new = [] \<and> \<not> ok)
     \<or> (\<exists>F r. is_rendered i F r \<and> new = [r] \<and> \<not> (ok \<and> i = 0 \<and> n > 1))
     \<or> (\<exists>F r c. is_rendered i F r \<and> is_cover F c \<and> new = [r, c] \<and> i = 0 \<and> n > 1)"

text \<open>The pages that one iteration of the loop can add, for a document with a content.\<close>

definition step_shape :: "nat \<Rightarrow> nat \<Rightarrow> ProcessedSVG \<Rightarrow> pdf_page list \<Rightarrow> bool" where
  "step_shape i n file new \<longleftrightarrow>
     (\<exists>ok body. render_shape i n ok body
        \<and> new = (if ok then body else body @ [placeholder i file]))"

text \<open>The pages that one iteration adds, for any document.\<close>

definition page_group :: "nat \<Rightarrow> nat \<times> ProcessedSVG \<Rightarrow> pdf_page list \<Rightarrow> bool" where
  "page_group n x new \<longleftrightarrow>
     (if processedContent (snd x) = None then new = [] else step_shape (fst x) n (snd x) new)"

text \<open>The page number that one iteration reports as failed, if any.\<close>

definition failure :: "nat \<times> ProcessedSVG \<Rightarrow> pdf_page list \<Rightarrow> nat list" where
  "failure x new = (if placeholder (fst x) (snd x) \<in> set new then [fst x + 1] else [])"

section \<open>Example documents for the paginated export\<close>

definition square_page :: node where
  "square_page =
     Element (js ''svg'')
       [(js ''xmlns'', js ''http://www.w3.org/2000/svg''), (js ''viewBox'', js ''0 0 100 100'')] []"

definition wide_page :: node where
  "wide_page =
     Element (js ''svg'')
       [(js ''xmlns'', js ''http://www.w3.org/2000/svg''), (js ''viewBox'', js ''0 0 200 100'')] []"

definition document :: "string \<Rightarrow> node option \<Rightarrow> ProcessedSVG" where
  "document name c =
     \<lparr>file_id = js name, originalFile = \<lparr>file_name = js name, file_text = c\<rparr>,
      processedContent = c, status = IDLE, file_assets = [], file_errors = [], progress = 0\<rparr>"

text \<open>A square first page, a wide second page, and a document without content.\<close>

definition book :: "ProcessedSVG list" where
  "book = [document ''1.svg'' (Some square_page), document ''2.svg'' (Some wide_page),
           document ''3.svg'' None]"

text \<open>An environment in which the canvas gives no drawing context.\<close>

definition no_canvas_env :: env where
  "no_canvas_env = example_env\<lparr>svgToDataUrl := (\<lambda>d w h. None)\<rparr>"

text \<open>The pages that the export of \<open>book\<close> gives in the example environment.\<close>

definition page1 :: pdf_page where
  "page1 = \<lparr>origin = Rendered 0, page_format = Some (Portrait, 210, 210),
            contents = [AddImage (js ''data:image/jpeg;base64,'') 210 210]\<rparr>"

definition cover :: pdf_page where
  "cover = \<lparr>origin = InsideCover, page_format = Some (Portrait, 210, 210), contents = []\<rparr>"

definition page2 :: pdf_page where
  "page2 = \<lparr>origin = Rendered 1, page_format = Some (Landscape, 210, 105),
            contents = [AddImage (js ''data:image/jpeg;base64,'') 210 105]\<rparr>"

text \<open>The page that is left without its image when the canvas gives no drawing context.\<close>

definition blank_page :: pdf_page where
  "blank_page = \<lparr>origin = Rendered 0, page_format = Some (Portrait, 210, 210), contents = []\<rparr>"

definition one_page :: "ProcessedSVG list" where
  "one_page = [document ''1.svg'' (Some square_page)]"

section \<open>Facts on strings\<close>

lemma js_simps:
  "js [] = []" "js (c # cs) = of_char c # js cs"
  by (simp_all add: js_def)

lemma unat_of_char: "unat (of_char c :: jschar) = of_char c"
proof -
  have "(of_char c :: nat) mod 256 < 256" by simp
  then have "(of_char c :: nat) < 256" by (simp only: of_char_mod_256)
  then have "(of_char c :: nat) < 65536" by linarith
  then have "(of_char c :: nat) mod 65536 = of_char c" by (rule mod_less)
  moreover have "(of_char c :: jschar) = of_nat (of_char c)" by (simp add: of_nat_of_char)
  ultimately show ?thesis by (simp add: unat_of_nat)
qed

lemma of_char_jschar_eq_iff: "(of_char c :: jschar) = of_char d \<longleftrightarrow> c = d"
proof
  assume "(of_char c :: jschar) = of_char d"
  then have "unat (of_char c :: jschar) = unat (of_char d :: jschar)" by simp
  then show "c = d" by (simp add: unat_of_char)
qed simp

lemma js_eq_iff: "js s = js t \<longleftrightarrow> s = t"
  unfolding js_def
proof (induction s arbitrary: t)
  case Nil then show ?case by auto
next
  case (Cons c s)
  then show ?case by (cases t) (auto simp: of_char_jschar_eq_iff)
qed

lemma js_Nil_iff: "js s = [] \<longleftrightarrow> s = []" "[] = js s \<longleftrightarrow> s = []"
  by (auto simp: js_def)

lemma js_append: "js (s @ t) = js s @ js t"
  by (simp add: js_def)

lemma example_env_simps:
  "url_pathname example_env = (\<lambda>u. if u = js ''https://ex.com/a.jpg'' then Some (js ''/a.jpg'') else None)"
  "fetch example_env = (\<lambda>n u. if u = js ''https://ex.com/a.jpg''
                      then Response True (Some (js ''image/jpeg'')) (Inr [255, 216])
                      else Rejected (js ''Failed to fetch''))"
  "random_hash example_env = (\<lambda>n. js ''k3x9qz'')"
  "pdf_throws example_env = (\<lambda>c. False)"
  "parseFloat example_env = decimal"
  "styleBackgroundColor example_env = (\<lambda>e. [])"
  "svgToDataUrl example_env = (\<lambda>d w h. Some (js ''data:image/jpeg;base64,''))"
  "blobToBase64 example_env = (\<lambda>b. Some (js ''data:application/octet-stream;base64,''))"
  by (simp_all add: example_env_def)

section \<open>Toggling tags twice\<close>

lemma split_on_no_sep: "sep \<notin> set x \<Longrightarrow> split_on sep x = [x]"
  by (induction x) auto

lemma split_on_append_sep:
  "sep \<notin> set x \<Longrightarrow> split_on sep (x @ sep # rest) = x # split_on sep rest"
  by (induction x) auto

lemma split_on_join:
  "xs \<noteq> [] \<Longrightarrow> \<forall>x\<in>set xs. sep \<notin> set x \<Longrightarrow> split_on sep (join sep xs) = xs"
proof (induction sep xs rule: join.induct)
  case (3 sep x y ys)
  then show ?case by (simp add: split_on_append_sep)
qed (simp_all add: split_on_no_sep)

lemma split_on_parts_no_sep: "w \<in> set (split_on sep s) \<Longrightarrow> sep \<notin> set w"
proof (induction s arbitrary: w)
  case Nil then show ?case by simp
next
  case (Cons c cs)
  then show ?case by (auto split: if_splits list.splits)
qed

lemma join_eq_Nil: "[] \<notin> set xs \<Longrightarrow> join sep xs = [] \<longleftrightarrow> xs = []"
  by (induction sep xs rule: join.induct) auto

lemma fold_set_add_set: "set (fold set_add xs acc) = set acc \<union> set xs"
  by (induction xs arbitrary: acc) (auto simp: set_add_def)

lemma fold_set_add_distinct: "distinct acc \<Longrightarrow> distinct (fold set_add xs acc)"
  by (induction xs arbitrary: acc) (auto simp: set_add_def)

lemma fold_set_add_id: "distinct (acc @ xs) \<Longrightarrow> fold set_add xs acc = acc @ xs"
  by (induction xs arbitrary: acc) (auto simp: set_add_def)

lemma new_Set_set: "set (new_Set xs) = set xs"
  by (simp add: new_Set_def fold_set_add_set)

lemma new_Set_distinct: "distinct (new_Set xs)"
  by (simp add: new_Set_def fold_set_add_distinct)

lemma new_Set_id: "distinct xs \<Longrightarrow> new_Set xs = xs"
  using fold_set_add_id [of "[]" xs] by (simp add: new_Set_def)

lemma toggle_distinct: "distinct s \<Longrightarrow> distinct (toggle t s)"
  by (auto simp: toggle_def set_add_def set_delete_def distinct_removeAll)

lemma toggle_set: "set (toggle t s) = (if t \<in> set s then set s - {t} else insert t (set s))"
  by (auto simp: toggle_def set_add_def set_delete_def)

lemma fold_toggle_distinct: "distinct s \<Longrightarrow> distinct (fold toggle a s)"
  by (induction a arbitrary: s) (auto simp: toggle_distinct)

lemma fold_toggle_set:
  "distinct a \<Longrightarrow> set (fold toggle a s) = (set s - set a) \<union> (set a - set s)"
proof (induction a arbitrary: s)
  case Nil then show ?case by simp
next
  case (Cons t a)
  then show ?case by (auto simp: toggle_set split: if_splits)
qed

lemma currentTags_distinct: "distinct (currentTags e)"
  by (simp add: currentTags_def new_Set_distinct Let_def)

lemma currentTags_no_comma: "w \<in> set (currentTags e) \<Longrightarrow> comma \<notin> set w"
  by (auto simp: currentTags_def Let_def new_Set_set split: if_splits dest: split_on_parts_no_sep)

lemma map_of_set_attr: "map_of (set_attr name v as) name = Some v"
  by (induction name v as rule: set_attr.induct) auto

lemma map_of_filter_neq: "map_of (filter (\<lambda>(k, w). k \<noteq> name) as) name = None"
  by (induction as) auto

lemma getAttribute_setAttribute:
  "getAttribute (setAttribute name v (Element n as ks)) name = Some v"
  by (simp add: getAttribute_def map_of_set_attr)

lemma getAttribute_removeAttribute:
  "getAttribute (removeAttribute name e) name = None"
  by (cases e) (simp_all add: getAttribute_def map_of_filter_neq)

lemma currentTags_write_tags:
  assumes "distinct T" "[] \<notin> set T" "\<forall>w\<in>set T. comma \<notin> set w"
  shows "currentTags (write_tags T (Element n as ks)) = T"
proof (cases "T = []")
  case True
  then show ?thesis
    by (simp add: write_tags_def currentTags_def getAttribute_removeAttribute new_Set_def
        del: removeAttribute.simps)
next
  case False
  with assms have "join comma T \<noteq> []" by (simp add: join_eq_Nil)
  moreover have "split_on comma (join comma T) = T"
    using False assms by (simp add: split_on_join)
  ultimately show ?thesis using assms
    by (simp add: write_tags_def currentTags_def getAttribute_setAttribute new_Set_id del: setAttribute.simps)
qed

lemma tagName_write_tags: "tagName (write_tags T e) = tagName e"
  by (cases e) (simp_all add: write_tags_def Let_def)

lemma handleSvgClick_eq:
  "handleSvgClick a e =
     (if tagName e \<in> {js ''image'', js ''text''} \<and> a \<noteq> []
      then write_tags (fold toggle a (currentTags e)) e else e)"
  by (simp add: handleSvgClick_def write_tags_def Let_def)

section \<open>Claims on the tag toggle\<close>

text \<open>
  C7, as stated: for every element and every set of active tags, two clicks with the same
  active tags give the element the tag set it had. It fails for a tag that holds the
  separator: the first click writes \<open>a,b\<close>, which the second click reads as the two
  tags \<open>a\<close> and \<open>b\<close>, so that it adds \<open>a,b\<close> once more.
\<close>

theorem toggle_twice_counterexample:
  "tagSet (handleSvgClick [js ''a,b''] (handleSvgClick [js ''a,b''] (Element (js ''text'') [] [])))
   \<noteq> tagSet (Element (js ''text'') [] [])"
  by (simp add: tagSet_def handleSvgClick_def currentTags_def getAttribute_def js_def comma_def
      new_Set_def set_add_def toggle_def set_delete_def)

text \<open>
  C7, amended: when no active tag is empty or holds a comma, and the element's tag list has
  no empty entry, clicking the element twice with the same active tags restores its tag
  set. The active tags are the members of a \<open>Set\<close>, hence distinct.
\<close>

theorem toggle_twice_restores:
  assumes "distinct activeTags"
    and "\<forall>t\<in>set activeTags. t \<noteq> [] \<and> comma \<notin> set t"
    and "[] \<notin> tagSet e"
  shows "tagSet (handleSvgClick activeTags (handleSvgClick activeTags e)) = tagSet e"
proof (cases "tagName e \<in> {js ''image'', js ''text''} \<and> activeTags \<noteq> []")
  case False
  then show ?thesis by (auto simp: handleSvgClick_eq)
next
  case True
  then obtain n as ks where e: "e = Element n as ks"
    by (cases e) (auto simp: js_def)
  define S where "S = currentTags e"
  define T where "T = fold toggle activeTags S"
  define e' where "e' = write_tags T e"
  have S: "distinct S" "[] \<notin> set S" "\<forall>w\<in>set S. comma \<notin> set w"
    using assms(3) by (auto simp: S_def currentTags_distinct tagSet_def dest: currentTags_no_comma)
  have Tset: "set T = (set S - set activeTags) \<union> (set activeTags - set S)"
    by (simp add: T_def fold_toggle_set assms(1))
  have T: "distinct T" "[] \<notin> set T" "\<forall>w\<in>set T. comma \<notin> set w"
  proof -
    show "distinct T" using S(1) by (simp add: T_def fold_toggle_distinct)
    show "[] \<notin> set T" using S(2) assms(2) by (auto simp: Tset)
    show "\<forall>w\<in>set T. comma \<notin> set w" using S(3) assms(2) by (auto simp: Tset)
  qed
  have e'n: "tagName e' = tagName e" by (simp add: e'_def tagName_write_tags)
  obtain as' where e'E: "e' = Element n as' ks"
    by (cases "join comma T = []") (auto simp: e'_def e write_tags_def)
  have cur': "currentTags e' = T"
    unfolding e'_def e using T by (rule currentTags_write_tags)
  define U where "U = fold toggle activeTags T"
  have Uset: "set U = set S"
    using Tset by (auto simp: U_def fold_toggle_set assms(1))
  have U: "distinct U" "[] \<notin> set U" "\<forall>w\<in>set U. comma \<notin> set w"
  proof -
    show "distinct U" using T(1) by (simp add: U_def fold_toggle_distinct)
    show "[] \<notin> set U" using S(2) by (simp add: Uset)
    show "\<forall>w\<in>set U. comma \<notin> set w" using S(3) by (simp add: Uset)
  qed
  have "handleSvgClick activeTags e = e'"
    using True by (simp add: handleSvgClick_eq e'_def T_def S_def)
  moreover have "handleSvgClick activeTags e' = write_tags U e'"
    using True e'n by (simp add: handleSvgClick_eq U_def cur')
  moreover have "currentTags (write_tags U e') = U"
    unfolding e'E using U by (rule currentTags_write_tags)
  ultimately show ?thesis by (simp add: tagSet_def Uset S_def)
qed

text \<open>The amended claim at the tag \<open>redact-text\<close> and an element tagged \<open>cover\<close>.\<close>

theorem toggle_twice_restores_witness:
  "distinct [js ''redact-text'']
   \<and> js ''redact-text'' \<noteq> [] \<and> comma \<notin> set (js ''redact-text'')
   \<and> [] \<notin> tagSet (Element (js ''text'') [(js ''data-tags'', js ''cover'')] [TextNode (js ''Hi'')])
   \<and> tagSet (handleSvgClick [js ''redact-text''] (handleSvgClick [js ''redact-text'']
        (Element (js ''text'') [(js ''data-tags'', js ''cover'')] [TextNode (js ''Hi'')])))
     = tagSet (Element (js ''text'') [(js ''data-tags'', js ''cover'')] [TextNode (js ''Hi'')])"
proof -
  have h: "distinct [js ''redact-text'']"
    "\<forall>t\<in>set [js ''redact-text'']. t \<noteq> [] \<and> comma \<notin> set t"
    "[] \<notin> tagSet (Element (js ''text'') [(js ''data-tags'', js ''cover'')] [TextNode (js ''Hi'')])"
    by (simp_all add: tagSet_def currentTags_def getAttribute_def js_def comma_def new_Set_def
        set_add_def)
  from toggle_twice_restores [OF h] h show ?thesis by simp
qed

section \<open>The redaction transform on the elements of a page\<close>

lemma heads_elements: "map (\<lambda>e. (tagName e, attributes e)) (elements d) = heads d"
proof (induction d rule: heads.induct)
  case (1 t) then show ?case by simp
next
  case (2 t) then show ?case by simp
next
  case (3 n as ks)
  have h: "map (\<lambda>k. map (\<lambda>e. (tagName e, attributes e)) (elements k)) ks = map heads ks"
    using 3 by simp
  show ?case by (simp add: map_concat comp_def h)
qed

lemma shouldRedact_attrs: "shouldRedact e = shouldRedact (Element (tagName e) (attributes e) [])"
  by (simp add: shouldRedact_def getAttribute_def)

lemma shouldRedact_kids: "shouldRedact (Element n as ks) = shouldRedact (Element m as [])"
  by (simp add: shouldRedact_def getAttribute_def)

lemma count_id_heads: "count_id v d = length (filter (has_id v) (heads d))"
proof -
  have "length (filter (has_id v) (heads d))
      = length (filter (has_id v) (map (\<lambda>e. (tagName e, attributes e)) (elements d)))"
    by (simp add: heads_elements)
  also have "\<dots> = count_id v d"
    by (simp add: count_id_def filter_map comp_def has_id_def getAttribute_def)
  finally show ?thesis by simp
qed

lemma getElementById_count: "getElementById v d = None \<longleftrightarrow> count_id v d = 0"
  by (auto simp: getElementById_def find_None_iff count_id_def filter_empty_conv)

lemma targets_heads:
  "map (\<lambda>e. (tagName e, attributes e)) (redactionTargets d) = filter is_target (heads d)"
proof -
  have "filter is_target (heads d)
      = filter is_target (map (\<lambda>e. (tagName e, attributes e)) (elements d))"
    by (simp add: heads_elements)
  also have "\<dots> = map (\<lambda>e. (tagName e, attributes e))
                     (filter (\<lambda>e. tagName e = js ''image'' \<and> shouldRedact e) (elements d))"
    by (simp add: filter_map comp_def is_target_def shouldRedact_attrs [symmetric])
  finally show ?thesis
    by (simp add: redactionTargets_def getElementsByTagName_def conj_commute)
qed

lemma targets_Nil_heads: "redactionTargets d = [] \<longleftrightarrow> filter is_target (heads d) = []"
  by (simp add: targets_heads [symmetric])

lemma getElementsByTagName_Nil: "getElementsByTagName t d = [] \<longleftrightarrow> t \<notin> fst ` set (heads d)"
proof -
  have "getElementsByTagName t d = [] \<longleftrightarrow> t \<notin> tagName ` set (elements d)"
    by (auto simp: getElementsByTagName_def filter_empty_conv)
  also have "tagName ` set (elements d) = fst ` set (map (\<lambda>e. (tagName e, attributes e)) (elements d))"
    by (simp add: image_image)
  finally show ?thesis by (simp only: heads_elements)
qed

subsection \<open>Names and attributes of the elements that are made\<close>

lemma takeWhile_rev_all: "c \<notin> set x \<Longrightarrow> takeWhile (\<lambda>a. a \<noteq> c) (rev x) = rev x"
  by (simp add: takeWhile_eq_all_conv) auto

lemma local_part_plain: "colon \<notin> set x \<Longrightarrow> local_part x = x"
  by (simp add: local_part_def takeWhile_rev_all)

lemma local_part_prefixed: "colon \<notin> set x \<Longrightarrow> local_part (p @ colon # x) = x"
proof -
  assume a: "colon \<notin> set x"
  have "takeWhile (\<lambda>a. a \<noteq> colon) (rev x @ colon # rev p) = rev x"
    using a by (simp add: takeWhile_append takeWhile_rev_all)
  then show ?thesis by (simp add: local_part_def)
qed

lemma local_part_qualified_name: "colon \<notin> set x \<Longrightarrow> local_part (qualified_name sc x) = x"
  by (simp add: qualified_name_def local_part_plain local_part_prefixed split: option.splits)

lemma no_colon:
  "colon \<notin> set (js ''defs'')" "colon \<notin> set (js ''filter'')"
  "colon \<notin> set (js ''feGaussianBlur'')" "colon \<notin> set (js ''image'')"
  "colon \<notin> set (js ''text'')" "colon \<notin> set (js ''tspan'')"
  by (simp_all add: js_simps colon_def)

lemma qualified_name_neq:
  assumes "colon \<notin> set x" and "colon \<notin> set y" and "x \<noteq> y"
  shows "qualified_name sc x \<noteq> y"
proof
  assume "qualified_name sc x = y"
  then have "local_part (qualified_name sc x) = local_part y" by simp
  with assms show False by (simp add: local_part_qualified_name local_part_plain)
qed

lemma made_names:
  "qualified_name sc (js ''defs'') \<noteq> js ''image''"
  "qualified_name sc (js ''filter'') \<noteq> js ''image''"
  "qualified_name sc (js ''feGaussianBlur'') \<noteq> js ''image''"
  "qualified_name sc (js ''defs'') \<noteq> js ''text''"
  "qualified_name sc (js ''filter'') \<noteq> js ''text''"
  "qualified_name sc (js ''feGaussianBlur'') \<noteq> js ''text''"
  "qualified_name sc (js ''defs'') \<noteq> js ''tspan''"
  "qualified_name sc (js ''filter'') \<noteq> js ''tspan''"
  "qualified_name sc (js ''feGaussianBlur'') \<noteq> js ''tspan''"
  by (rule qualified_name_neq; simp add: no_colon js_eq_iff)+

lemma map_of_ns_declaration:
  "k \<noteq> js ''xmlns'' \<Longrightarrow> map_of (ns_declaration sc @ as) k = map_of as k"
  "k \<noteq> js ''xmlns'' \<Longrightarrow> map_of (ns_declaration sc) k = None"
  by (simp_all add: ns_declaration_def)

lemma not_xmlns:
  "js ''id'' \<noteq> js ''xmlns''" "js ''data-tags'' \<noteq> js ''xmlns''" "js ''x'' \<noteq> js ''xmlns''"
  "js ''y'' \<noteq> js ''xmlns''" "js ''width'' \<noteq> js ''xmlns''" "js ''height'' \<noteq> js ''xmlns''"
  "js ''stdDeviation'' \<noteq> js ''xmlns''" "js ''filter'' \<noteq> js ''xmlns''"
  by (simp_all add: js_eq_iff)

lemma heads_blur_filter:
  "heads (blur_filter sc) =
     [(qualified_name sc (js ''filter''),
       ns_declaration sc @ [(js ''id'', FILTER_ID), (js ''x'', js ''-50%''), (js ''y'', js ''-50%''),
         (js ''width'', js ''200%''), (js ''height'', js ''200%'')]),
      (qualified_name (inside (ns_declaration sc) sc) (js ''feGaussianBlur''),
       ns_declaration (inside (ns_declaration sc) sc) @ [(js ''stdDeviation'', js ''150'')])]"
  by (simp add: blur_filter_def createElementNS_def)

lemma FILTER_ID_literal: "FILTER_ID = js ''redact-blur''"
  by (simp add: FILTER_ID_def)

lemma filter_url_literal: "filter_url = js ''url(#redact-blur)''"
  by (simp add: filter_url_def FILTER_ID_def js_def)

lemma blur_filter_no_target: "filter is_target (heads (blur_filter sc)) = []"
  by (simp add: heads_blur_filter is_target_def made_names)

lemma blur_filter_one_id: "length (filter (has_id FILTER_ID) (heads (blur_filter sc))) = 1"
  by (simp add: heads_blur_filter has_id_def map_of_ns_declaration not_xmlns js_eq_iff
      del: map_of_append)

lemma blur_filter_no_tags: "concat (map tag_of (heads (blur_filter sc))) = []"
  by (simp add: heads_blur_filter tag_of_def map_of_ns_declaration not_xmlns js_eq_iff
      del: map_of_append)

lemma is_blur_filter_blur_filter: "is_blur_filter (blur_filter sc)"
  by (simp add: is_blur_filter_def is_blur_def blur_filter_def createElementNS_def local_name_def
      local_part_qualified_name no_colon getAttribute_def map_of_ns_declaration not_xmlns
      FILTER_ID_literal js_eq_iff del: map_of_append)

subsection \<open>The two changes of the tree: attributes of images, a new child\<close>

lemma map_of_set_attr_other: "name \<noteq> k \<Longrightarrow> map_of (set_attr name v as) k = map_of as k"
  by (induction name v as rule: set_attr.induct) auto

lemma js_filter_neq: "js ''filter'' \<noteq> js ''id''" "js ''filter'' \<noteq> js ''data-tags''"
  by (simp_all add: js_eq_iff)

lemma has_id_sf: "has_id v (sf h) = has_id v h"
  by (simp add: sf_def has_id_def map_of_set_attr_other js_filter_neq)

lemma is_target_sf: "is_target (sf h) = is_target h"
  by (simp add: sf_def is_target_def shouldRedact_def getAttribute_def map_of_set_attr_other
      js_filter_neq)

lemma tag_of_sf: "tag_of (sf h) = tag_of h"
  by (auto simp: sf_def tag_of_def map_of_set_attr_other js_filter_neq split: option.splits)

lemma sf_not_target: "\<not> is_target h \<Longrightarrow> sf h = h"
  by (simp add: sf_def)

lemma sf_pair:
  "sf (n, as) = (if n = js ''image'' \<and> shouldRedact (Element n as [])
                 then (n, set_attr (js ''filter'') filter_url as) else (n, as))"
  by (auto simp add: sf_def is_target_def)

lemma setFilters_Element:
  "setFilters (Element n as ks) = Element n (snd (sf (n, as))) (map setFilters ks)"
  by (auto simp add: Let_def sf_pair shouldRedact_kids [of n as "map setFilters ks" n])

lemma heads_setFilters: "heads (setFilters d) = map sf (heads d)"
proof (induction d rule: setFilters.induct)
  case (1 t) then show ?case by simp
next
  case (2 t) then show ?case by simp
next
  case (3 n as ks)
  have h: "map (\<lambda>k. heads (setFilters k)) ks = map (\<lambda>k. map sf (heads k)) ks" using 3 by simp
  have "(n, snd (sf (n, as))) = sf (n, as)" by (simp add: sf_pair)
  then show ?case
    by (simp add: setFilters_Element comp_def h map_concat del: setFilters.simps)
qed

lemma setFilters_no_target: "filter is_target (heads d) = [] \<Longrightarrow> setFilters d = d"
proof (induction d rule: setFilters.induct)
  case (1 t) then show ?case by simp
next
  case (2 t) then show ?case by simp
next
  case (3 n as ks)
  from 3(2) have "\<not> is_target (n, as)" and k: "\<forall>k\<in>set ks. filter is_target (heads k) = []"
    by (auto simp: filter_empty_conv split: if_splits)
  then have "snd (sf (n, as)) = as" by (simp add: sf_not_target)
  moreover have "map setFilters ks = ks"
    using 3(1) k by (simp add: map_idI)
  ultimately show ?case by (simp add: setFilters_Element del: setFilters.simps)
qed

lemma setFilters_blur_filter: "setFilters (blur_filter sc) = blur_filter sc"
  by (rule setFilters_no_target) (rule blur_filter_no_target)

lemma try_first_None: "try_first f xs = None \<longleftrightarrow> (\<forall>x\<in>set xs. f x = None)"
  by (induction xs) (auto split: option.splits)

lemma try_first_Some:
  "try_first f xs = Some ys \<Longrightarrow>
     \<exists>pre x post y. xs = pre @ x # post \<and> ys = pre @ y # post \<and> f x = Some y
        \<and> (\<forall>z\<in>set pre. f z = None)"
proof (induction xs arbitrary: ys)
  case Nil then show ?case by simp
next
  case (Cons a xs)
  show ?case
  proof (cases "f a")
    case (Some y)
    with Cons.prems have "ys = y # xs" by simp
    with Some show ?thesis by (intro exI [of _ "[]"]) auto
  next
    case None
    with Cons.prems obtain zs where zs: "try_first f xs = Some zs" "ys = a # zs" by auto
    from Cons.IH [OF zs(1)] obtain pre x post y
      where "xs = pre @ x # post" "zs = pre @ y # post" "f x = Some y" "\<forall>z\<in>set pre. f z = None"
      by blast
    with zs None show ?thesis by (intro exI [of _ "a # pre"]) auto
  qed
qed

lemma appendToFirst_None:
  "appendToFirst t new sc d = None \<longleftrightarrow> t \<notin> fst ` set (heads d)"
proof (induction t new sc d rule: appendToFirst.induct)
  case (1 t new sc s) then show ?case by simp
next
  case (2 t new sc s) then show ?case by simp
next
  case (3 t new sc n as ks)
  show ?case
  proof (cases "n = t")
    case True then show ?thesis by simp
  next
    case False
    have "try_first (appendToFirst t new (inside as sc)) ks = None
        \<longleftrightarrow> (\<forall>k\<in>set ks. t \<notin> fst ` set (heads k))"
      using 3 [OF False] by (simp add: try_first_None)
    with False show ?thesis by auto
  qed
qed

text \<open>The new child goes into the list of the elements at one place.\<close>

lemma appendToFirst_heads:
  "appendToFirst t new sc d = Some d' \<Longrightarrow>
     \<exists>sc' pre post. heads d = pre @ post \<and> heads d' = pre @ heads (new sc') @ post"
proof (induction t new sc d arbitrary: d' rule: appendToFirst.induct)
  case (1 t new sc s) then show ?case by simp
next
  case (2 t new sc s) then show ?case by simp
next
  case (3 t new sc n as ks)
  show ?case
  proof (cases "n = t")
    case True
    with 3(2) have "d' = Element n as (ks @ [new (inside as sc)])" by simp
    then have "heads (Element n as ks) = heads (Element n as ks) @ []
        \<and> heads d' = heads (Element n as ks) @ heads (new (inside as sc)) @ []"
      by simp
    then show ?thesis by blast
  next
    case False
    with 3(2) obtain ks' where ks': "try_first (appendToFirst t new (inside as sc)) ks = Some ks'"
      "d' = Element n as ks'" by auto
    from try_first_Some [OF ks'(1)] obtain pre x post y
      where sp: "ks = pre @ x # post" "ks' = pre @ y # post"
        "appendToFirst t new (inside as sc) x = Some y"
      by blast
    have "x \<in> set ks" using sp by simp
    from 3(1) [OF False this sp(3)] obtain sc' p q
      where pq: "heads x = p @ q" "heads y = p @ heads (new sc') @ q" by blast
    have "heads (Element n as ks)
        = ((n, as) # concat (map heads pre) @ p) @ (q @ concat (map heads post))"
      by (simp add: sp pq)
    moreover have "heads d'
        = ((n, as) # concat (map heads pre) @ p) @ heads (new sc') @ (q @ concat (map heads post))"
      by (simp add: ks' sp pq)
    ultimately show ?thesis by blast
  qed
qed

text \<open>The new child is the last child of the first element of the name.\<close>

lemma getElementsByTagName_Element:
  "getElementsByTagName t (Element n as ks) =
     (if n = t then [Element n as ks] else []) @ concat (map (getElementsByTagName t) ks)"
  unfolding getElementsByTagName_def [abs_def] by (simp add: filter_concat comp_def)

lemma appendToFirst_first:
  "appendToFirst t new sc d = Some d' \<Longrightarrow>
     \<exists>sc' as ks rest rest'.
        getElementsByTagName t d = Element t as ks # rest
        \<and> getElementsByTagName t d' = Element t as (ks @ [new sc']) # rest'"
proof (induction t new sc d arbitrary: d' rule: appendToFirst.induct)
  case (1 t new sc s) then show ?case by simp
next
  case (2 t new sc s) then show ?case by simp
next
  case (3 t new sc n as ks)
  show ?case
  proof (cases "n = t")
    case True
    with 3(2) have d': "d' = Element t as (ks @ [new (inside as sc)])" by simp
    have "getElementsByTagName t (Element n as ks)
        = Element t as ks # concat (map (getElementsByTagName t) ks)"
      using True by (simp add: getElementsByTagName_Element)
    moreover have "getElementsByTagName t d'
        = Element t as (ks @ [new (inside as sc)])
            # concat (map (getElementsByTagName t) (ks @ [new (inside as sc)]))"
      unfolding d' by (simp add: getElementsByTagName_Element)
    ultimately show ?thesis by blast
  next
    case False
    with 3(2) obtain ks' where ks': "try_first (appendToFirst t new (inside as sc)) ks = Some ks'"
      "d' = Element n as ks'" by auto
    from try_first_Some [OF ks'(1)] obtain pre x post y
      where sp: "ks = pre @ x # post" "ks' = pre @ y # post"
        "appendToFirst t new (inside as sc) x = Some y"
        "\<forall>z\<in>set pre. appendToFirst t new (inside as sc) z = None"
      by blast
    have "x \<in> set ks" using sp by simp
    from 3(1) [OF False this sp(3)] obtain sc' bs cs rest rest'
      where f: "getElementsByTagName t x = Element t bs cs # rest"
        "getElementsByTagName t y = Element t bs (cs @ [new sc']) # rest'" by blast
    have "\<forall>z\<in>set pre. getElementsByTagName t z = []"
      using sp(4) by (simp add: appendToFirst_None getElementsByTagName_Nil)
    then have pre: "concat (map (getElementsByTagName t) pre) = []" by simp
    have "getElementsByTagName t (Element n as ks)
        = Element t bs cs # (rest @ concat (map (getElementsByTagName t) post))"
      using False by (simp add: getElementsByTagName_Element sp pre f)
    moreover have "getElementsByTagName t d'
        = Element t bs (cs @ [new sc']) # (rest' @ concat (map (getElementsByTagName t) post))"
      using False by (simp add: getElementsByTagName_Element ks' sp pre f)
    ultimately show ?thesis by blast
  qed
qed

subsection \<open>The transform of the text\<close>

lemma trim_Nil: "trim t = [] \<Longrightarrow> \<forall>c\<in>set t. isSpace c"
proof -
  assume "trim t = []"
  then have "dropWhile isSpace (rev (dropWhile isSpace t)) = []" by (simp add: trim_def)
  then have a: "\<forall>c\<in>set (dropWhile isSpace t). isSpace c" by (simp add: dropWhile_eq_Nil_conv)
  have "dropWhile isSpace t = []"
  proof (rule ccontr)
    assume n: "dropWhile isSpace t \<noteq> []"
    then have "\<not> isSpace (hd (dropWhile isSpace t))" by (rule hd_dropWhile)
    moreover have "hd (dropWhile isSpace t) \<in> set (dropWhile isSpace t)" using n by simp
    ultimately show False using a by blast
  qed
  then show ?thesis by (simp add: dropWhile_eq_Nil_conv)
qed

lemma mask_blank: "\<forall>c\<in>set t. isSpace c \<Longrightarrow> mask t = t"
  by (induction t) (simp_all add: mask_def mask_with_def)

lemma redactTextNodes_TextNode: "redactTextNodes (TextNode t) = TextNode (mask t)"
proof (cases "t \<noteq> [] \<and> trim t \<noteq> []")
  case True then show ?thesis by simp
next
  case False
  then have "\<forall>c\<in>set t. isSpace c" using trim_Nil [of t] by auto
  then have "mask t = t" by (rule mask_blank)
  with False show ?thesis by auto
qed

lemma funpow_redactTextNodes:
  "(redactTextNodes ^^ k) (Element n as ks) = Element n as (map (redactTextNodes ^^ k) ks)"
  "(redactTextNodes ^^ k) (TextNode t) = TextNode ((mask ^^ k) t)"
  "(redactTextNodes ^^ k) (CData t) = CData t"
  by (induction k) (simp_all add: redactTextNodes_TextNode del: redactTextNodes.simps(1))

lemma is_container_pair:
  "is_container (n, as) \<longleftrightarrow> (n = js ''text'' \<or> n = js ''tspan'') \<and> shouldRedact (Element n as [])"
  by (simp add: is_container_def)

lemma redactText_Element:
  "redactText (Element n as ks) =
     Element n as (map (if is_container (n, as) then redactTextNodes \<circ> redactText else redactText) ks)"
  using shouldRedact_kids [of n as "map redactText ks" n]
  by (simp add: Let_def is_container_pair)

lemma redactText_in_simps:
  "redactText_in k (Element n as ks) =
     Element n as (map (redactText_in (if is_container (n, as) then Suc k else k)) ks)"
  "redactText_in k (TextNode t) = TextNode ((mask ^^ k) t)"
  "redactText_in k (CData t) = CData t"
proof -
  have a: "(redactTextNodes ^^ k) (redactTextNodes (redactText x)) = redactText_in (Suc k) x" for x
    by (simp add: redactText_in_def funpow_swap1)
  have b: "(redactTextNodes ^^ k) (redactText x) = redactText_in k x" for x
    by (simp add: redactText_in_def)
  show "redactText_in k (Element n as ks) =
      Element n as (map (redactText_in (if is_container (n, as) then Suc k else k)) ks)"
    unfolding redactText_in_def [of k "Element n as ks"] redactText_Element
    by (simp add: funpow_redactTextNodes a b del: redactText.simps)
  show "redactText_in k (TextNode t) = TextNode ((mask ^^ k) t)"
    by (simp add: redactText_in_def funpow_redactTextNodes)
  show "redactText_in k (CData t) = CData t"
    by (simp add: redactText_in_def funpow_redactTextNodes)
qed

lemma redact_redactText_in: "redact d = redactText_in 0 (redactImages d)"
  by (simp add: redact_def redactText_in_def)

lemma heads_redactText_in: "heads (redactText_in k d) = heads d"
proof (induction d arbitrary: k)
  case (Element n as ks)
  define k' where "k' = (if is_container (n, as) then Suc k else k)"
  have r: "redactText_in k (Element n as ks) = Element n as (map (redactText_in k') ks)"
    by (simp add: redactText_in_simps k'_def)
  have h: "map (\<lambda>c. heads (redactText_in k' c)) ks = map heads ks"
    using Element by simp
  show ?case unfolding r by (simp add: comp_def h)
qed (simp_all add: redactText_in_simps)

lemma cdata_redactText_in: "cdata_sections (redactText_in k d) = cdata_sections d"
proof (induction d arbitrary: k)
  case (Element n as ks)
  define k' where "k' = (if is_container (n, as) then Suc k else k)"
  have r: "redactText_in k (Element n as ks) = Element n as (map (redactText_in k') ks)"
    by (simp add: redactText_in_simps k'_def)
  have h: "map (\<lambda>c. cdata_sections (redactText_in k' c)) ks = map cdata_sections ks"
    using Element by simp
  show ?case unfolding r by (simp add: comp_def h)
qed (simp_all add: redactText_in_simps)

lemma texts_redactText_in:
  "texts k (redactText_in k d) = map (\<lambda>(i, t). (i, (mask ^^ i) t)) (texts k d)"
proof (induction d arbitrary: k)
  case (Element n as ks)
  define k' where "k' = (if is_container (n, as) then Suc k else k)"
  have r: "redactText_in k (Element n as ks) = Element n as (map (redactText_in k') ks)"
    by (simp add: redactText_in_simps k'_def)
  have t: "texts k (Element n bs cs) = concat (map (texts k') cs)" if "bs = as" for bs cs
    using that by (simp add: k'_def)
  have h: "map (\<lambda>c. texts k' (redactText_in k' c)) ks
      = map (\<lambda>c. map (\<lambda>(i, t). (i, (mask ^^ i) t)) (texts k' c)) ks"
    using Element by simp
  show ?case unfolding r by (simp add: t comp_def map_concat h del: texts.simps)
qed (simp_all add: redactText_in_simps)

lemma redactText_in_blur_filter: "redactText_in k (blur_filter sc) = blur_filter sc"
  by (simp add: blur_filter_def createElementNS_def redactText_in_simps)

lemma list_all2_concat_map:
  "(\<And>c. c \<in> set ks \<Longrightarrow> list_all2 R (f c) (g c))
     \<Longrightarrow> list_all2 R (concat (map f ks)) (concat (map g ks))"
  by (induction ks) (auto intro: list_all2_appendI)

lemma list_all2_filter_same:
  "list_all2 R xs ys \<Longrightarrow> (\<And>x y. R x y \<Longrightarrow> P x = Q y)
     \<Longrightarrow> list_all2 R (filter P xs) (filter Q ys)"
  by (induction xs ys rule: list_all2_induct) auto

text \<open>Every element of the result is the transform of the element at its place.\<close>

lemma elements_redactText_in:
  "list_all2 (\<lambda>e e'. \<exists>j. e' = redactText_in j e) (elements d) (elements (redactText_in k d))"
proof (induction d arbitrary: k)
  case (Element n as ks)
  define k' where "k' = (if is_container (n, as) then Suc k else k)"
  have r: "redactText_in k (Element n as ks) = Element n as (map (redactText_in k') ks)"
    by (simp add: redactText_in_simps k'_def)
  have "list_all2 (\<lambda>e e'. \<exists>j. e' = redactText_in j e)
      (concat (map elements ks)) (concat (map (\<lambda>c. elements (redactText_in k' c)) ks))"
    using Element by (intro list_all2_concat_map) simp
  moreover have "\<exists>j. Element n as (map (redactText_in k') ks) = redactText_in j (Element n as ks)"
    using r [symmetric] by blast
  ultimately show ?case unfolding r by (simp add: comp_def)
qed (simp_all add: redactText_in_simps)

lemma tagName_redactText_in: "tagName (redactText_in j e) = tagName e"
  by (cases e) (simp_all add: redactText_in_simps)

lemma first_redactText_in:
  assumes "getElementsByTagName t d = e # es"
  shows "\<exists>j es'. getElementsByTagName t (redactText_in k d) = redactText_in j e # es'"
proof -
  have "list_all2 (\<lambda>e e'. \<exists>j. e' = redactText_in j e)
      (getElementsByTagName t d) (getElementsByTagName t (redactText_in k d))"
    unfolding getElementsByTagName_def
    by (rule list_all2_filter_same [OF elements_redactText_in]) (auto simp: tagName_redactText_in)
  with assms show ?thesis by (auto simp: list_all2_Cons1)
qed

lemma elements_setFilters: "elements (setFilters d) = map setFilters (elements d)"
proof (induction d rule: setFilters.induct)
  case (3 n as ks)
  have h: "map (\<lambda>k. elements (setFilters k)) ks = map (\<lambda>k. map setFilters (elements k)) ks"
    using 3 by simp
  show ?case
    by (simp add: setFilters_Element comp_def h map_concat del: setFilters.simps)
qed simp_all

lemma tagName_setFilters: "tagName (setFilters e) = tagName e"
  by (cases e) (simp_all add: setFilters_Element del: setFilters.simps(3))

lemma getElementsByTagName_setFilters:
  "getElementsByTagName t (setFilters d) = map setFilters (getElementsByTagName t d)"
  by (simp add: getElementsByTagName_def elements_setFilters filter_map comp_def
      tagName_setFilters)

subsection \<open>What the transform of the images makes of a page\<close>

lemma targets_Element: "redactionTargets d \<noteq> [] \<Longrightarrow> \<exists>n as ks. d = Element n as ks"
  by (cases d) (simp_all add: redactionTargets_def getElementsByTagName_def)

lemma no_id_new_defs:
  "getElementById FILTER_ID (Element n as (Element q (ns_declaration sc) [] # ks)) = None
     \<longleftrightarrow> getElementById FILTER_ID (Element n as ks) = None"
  by (simp add: getElementById_count count_id_heads has_id_def map_of_ns_declaration not_xmlns)

lemma redactImages_cases:
  assumes "redactionTargets d \<noteq> []"
  shows "(\<exists>e es d2. getElementsByTagName (js ''defs'') d = e # es
            \<and> getElementById FILTER_ID d = None
            \<and> appendToFirst (js ''defs'') blur_filter outermost d = Some d2
            \<and> redactImages d = setFilters d2)
       \<or> (getElementsByTagName (js ''defs'') d \<noteq> [] \<and> getElementById FILTER_ID d \<noteq> None
            \<and> redactImages d = setFilters d)
       \<or> (\<exists>n as ks sc. d = Element n as ks \<and> getElementsByTagName (js ''defs'') d = []
            \<and> redactImages d =
                 setFilters (Element n as
                   (Element (qualified_name sc (js ''defs'')) (ns_declaration sc)
                      (if getElementById FILTER_ID d = None
                       then [blur_filter (inside (ns_declaration sc) sc)] else [])
                    # ks)))"
proof -
  from assms have t: "filter shouldRedact (getElementsByTagName (js ''image'') d) \<noteq> []"
    by (simp add: redactionTargets_def)
  from targets_Element [OF assms] obtain n as ks where d: "d = Element n as ks" by blast
  show ?thesis
  proof (cases "getElementsByTagName (js ''defs'') d = []")
    case False
    then obtain e es where e: "getElementsByTagName (js ''defs'') d = e # es"
      by (cases "getElementsByTagName (js ''defs'') d") auto
    show ?thesis
    proof (cases "getElementById FILTER_ID d = None")
      case True
      from False obtain d2 where d2: "appendToFirst (js ''defs'') blur_filter outermost d = Some d2"
        using appendToFirst_None [of "js ''defs''" blur_filter outermost d]
        by (auto simp: getElementsByTagName_Nil)
      have "redactImages d = setFilters d2"
        using t False True d2 by (simp add: redactImages_def Let_def)
      with e True d2 show ?thesis by blast
    next
      case no: False
      have "redactImages d = setFilters d"
        using t False no by (auto simp: redactImages_def Let_def)
      with False no show ?thesis by blast
    qed
  next
    case True
    define sc where "sc = inside as outermost"
    have "redactImages d =
        setFilters (Element n as
          (Element (qualified_name sc (js ''defs'')) (ns_declaration sc)
             (if getElementById FILTER_ID d = None
              then [blur_filter (inside (ns_declaration sc) sc)] else [])
           # ks))"
      using t True unfolding d
      by (simp add: redactImages_def Let_def createElementNS_def no_id_new_defs sc_def
          del: setFilters.simps)
    with True d show ?thesis by blast
  qed
qed

lemma redactImages_no_targets: "redactionTargets d = [] \<Longrightarrow> redactImages d = d"
  by (simp add: redactImages_def redactionTargets_def)

text \<open>
  The elements of the result are those of the page, with the filter set on the tagged
  images, and the new elements at one place between them.
\<close>

lemma heads_redactImages:
  "\<exists>pre post A. heads d = pre @ post \<and> heads (redactImages d) = map sf (pre @ A @ post)
      \<and> filter is_target A = [] \<and> concat (map tag_of A) = []
      \<and> length (filter (has_id FILTER_ID) A)
          = (if redactionTargets d \<noteq> [] \<and> getElementById FILTER_ID d = None then 1 else 0)"
proof (cases "redactionTargets d = []")
  case True
  then have "\<forall>h\<in>set (heads d). \<not> is_target h"
    by (simp add: targets_Nil_heads filter_empty_conv)
  then have "map sf (heads d) = heads d"
    by (simp add: sf_not_target map_idI)
  with True have "heads d = heads d @ [] \<and> heads (redactImages d) = map sf (heads d @ [] @ [])"
    by (simp add: redactImages_no_targets)
  with True show ?thesis by (intro exI [of _ "heads d"] exI [of _ "[]"]) simp
next
  case False
  from redactImages_cases [OF False] consider
    (new) e es d2 where "getElementsByTagName (js ''defs'') d = e # es"
      "getElementById FILTER_ID d = None"
      "appendToFirst (js ''defs'') blur_filter outermost d = Some d2"
      "redactImages d = setFilters d2"
    | (old) "getElementById FILTER_ID d \<noteq> None" "redactImages d = setFilters d"
    | (made) n as ks sc where "d = Element n as ks"
      "redactImages d =
         setFilters (Element n as
           (Element (qualified_name sc (js ''defs'')) (ns_declaration sc)
              (if getElementById FILTER_ID d = None
               then [blur_filter (inside (ns_declaration sc) sc)] else [])
            # ks))"
    by blast
  then show ?thesis
  proof cases
    case new
    from appendToFirst_heads [OF new(3)] obtain sc' pre post
      where h: "heads d = pre @ post" "heads d2 = pre @ heads (blur_filter sc') @ post" by blast
    have "heads (redactImages d) = map sf (pre @ heads (blur_filter sc') @ post)"
      by (simp only: new(4) heads_setFilters h(2))
    with h(1) False new(2) show ?thesis
      by (intro exI [of _ pre] exI [of _ post] exI [of _ "heads (blur_filter sc')"])
         (simp add: blur_filter_no_target blur_filter_no_tags blur_filter_one_id)
  next
    case old
    have "heads d = heads d @ [] \<and> heads (redactImages d) = map sf (heads d @ [] @ [])"
      by (simp add: old(2) heads_setFilters)
    with old(1) show ?thesis by (intro exI [of _ "heads d"] exI [of _ "[]"]) simp
  next
    case made
    define D where "D = (qualified_name sc (js ''defs''), ns_declaration sc)"
    define A where "A = D # (if getElementById FILTER_ID d = None
        then heads (blur_filter (inside (ns_declaration sc) sc)) else [])"
    have D: "\<not> is_target D" "tag_of D = []" "\<not> has_id FILTER_ID D"
      by (simp_all add: D_def is_target_def made_names tag_of_def has_id_def
          map_of_ns_declaration not_xmlns)
    have "heads d = [(n, as)] @ concat (map heads ks)" by (simp add: made(1))
    moreover have "heads (redactImages d) = map sf ([(n, as)] @ A @ concat (map heads ks))"
      unfolding made(2) heads_setFilters
      by (cases "getElementById FILTER_ID d = None") (auto simp: A_def D_def)
    moreover have "filter is_target A = [] \<and> concat (map tag_of A) = []
      \<and> length (filter (has_id FILTER_ID) A)
          = (if getElementById FILTER_ID d = None then 1 else 0)"
      by (cases "getElementById FILTER_ID d = None")
         (simp_all add: A_def D blur_filter_no_target blur_filter_no_tags blur_filter_one_id
            del: not_None_eq)
    ultimately show ?thesis using False
      by (intro exI [of _ "[(n, as)]"] exI [of _ "concat (map heads ks)"] exI [of _ A]) simp
  qed
qed

lemma heads_redact:
  "\<exists>pre post A. heads d = pre @ post \<and> heads (redact d) = map sf (pre @ A @ post)
      \<and> filter is_target A = [] \<and> concat (map tag_of A) = []
      \<and> length (filter (has_id FILTER_ID) A)
          = (if redactionTargets d \<noteq> [] \<and> getElementById FILTER_ID d = None then 1 else 0)"
  using heads_redactImages [of d] by (simp add: redact_redactText_in heads_redactText_in)

lemma heads_redact_no_targets: "redactionTargets d = [] \<Longrightarrow> heads (redact d) = heads d"
  by (simp add: redact_redactText_in heads_redactText_in redactImages_no_targets)

lemma filter_map_sf:
  "filter (has_id v) (map sf xs) = map sf (filter (has_id v) xs)"
  "filter is_target (map sf xs) = map sf (filter is_target xs)"
  by (simp_all add: filter_map comp_def has_id_sf is_target_sf)

lemma count_id_redact:
  "count_id FILTER_ID (redact d)
     = (if redactionTargets d \<noteq> [] \<and> getElementById FILTER_ID d = None then 1
        else count_id FILTER_ID d)"
proof -
  from heads_redact [of d] obtain pre post A
    where h: "heads d = pre @ post" "heads (redact d) = map sf (pre @ A @ post)"
      "length (filter (has_id FILTER_ID) A)
         = (if redactionTargets d \<noteq> [] \<and> getElementById FILTER_ID d = None then 1 else 0)"
    by blast
  have "count_id FILTER_ID (redact d) = count_id FILTER_ID d + length (filter (has_id FILTER_ID) A)"
    by (simp add: count_id_heads h(1,2) filter_map_sf)
  then show ?thesis
    by (auto simp: h(3) getElementById_count)
qed

lemma targets_redact:
  "map attributes (redactionTargets (redact d))
     = map (\<lambda>img. set_attr (js ''filter'') (js ''url(#redact-blur)'') (attributes img))
         (redactionTargets d)"
proof -
  from heads_redact [of d] obtain pre post A
    where h: "heads d = pre @ post" "heads (redact d) = map sf (pre @ A @ post)"
      "filter is_target A = []"
    by blast
  have "map (\<lambda>e. (tagName e, attributes e)) (redactionTargets (redact d))
      = map sf (filter is_target (heads d))"
    by (simp add: targets_heads h filter_map_sf)
  also have "\<dots> = map sf (map (\<lambda>e. (tagName e, attributes e)) (redactionTargets d))"
    by (simp only: targets_heads)
  finally have "map snd (map (\<lambda>e. (tagName e, attributes e)) (redactionTargets (redact d)))
      = map snd (map sf (map (\<lambda>e. (tagName e, attributes e)) (redactionTargets d)))"
    by (rule arg_cong)
  then have "map attributes (redactionTargets (redact d))
      = map (\<lambda>e. snd (sf (tagName e, attributes e))) (redactionTargets d)"
    by (simp add: comp_def)
  also have "\<dots> = map (\<lambda>img. set_attr (js ''filter'') (js ''url(#redact-blur)'') (attributes img))
      (redactionTargets d)"
  proof (rule map_cong [OF refl])
    fix e assume "e \<in> set (redactionTargets d)"
    then have "(tagName e, attributes e) \<in> set (filter is_target (heads d))"
      unfolding targets_heads [symmetric] by simp
    then have "is_target (tagName e, attributes e)" by simp
    then show "snd (sf (tagName e, attributes e))
        = set_attr (js ''filter'') (js ''url(#redact-blur)'') (attributes e)"
      by (simp add: sf_def filter_url_literal)
  qed
  finally show ?thesis .
qed

lemma tagged_elements_redact: "tagged_elements (redact d) = tagged_elements d"
proof -
  from heads_redact [of d] obtain pre post A
    where h: "heads d = pre @ post" "heads (redact d) = map sf (pre @ A @ post)"
      "concat (map tag_of A) = []"
    by blast
  have t: "concat (map tag_of (map sf xs)) = concat (map tag_of xs)" for xs
    by (simp add: comp_def tag_of_sf)
  show ?thesis
    unfolding tagged_elements_def h(2) t by (simp add: h(1,3))
qed

subsection \<open>The text of a page under the transform\<close>

lemma is_container_sf: "is_container (n, snd (sf (n, as))) = is_container (n, as)"
  by (simp add: sf_pair is_container_pair shouldRedact_def getAttribute_def
      map_of_set_attr_other js_filter_neq)

lemma texts_setFilters: "texts k (setFilters d) = texts k d"
proof (induction d arbitrary: k)
  case (Element n as ks)
  define k' where "k' = (if is_container (n, as) then Suc k else k)"
  have t: "texts k (Element n bs cs) = concat (map (texts k') cs)"
    if "is_container (n, bs) = is_container (n, as)" for bs cs
    using that by (simp add: k'_def)
  have h: "map (\<lambda>c. texts k' (setFilters c)) ks = map (texts k') ks"
    using Element by simp
  show ?case
    unfolding setFilters_Element
    by (simp add: t is_container_sf comp_def h del: texts.simps)
qed simp_all

lemma cdata_setFilters: "cdata_sections (setFilters d) = cdata_sections d"
proof (induction d)
  case (Element n as ks)
  have h: "map (\<lambda>c. cdata_sections (setFilters c)) ks = map cdata_sections ks"
    using Element by simp
  show ?case
    unfolding setFilters_Element by (simp add: comp_def h)
qed simp_all

lemma blur_filter_no_text:
  "texts j (blur_filter sc) = []" "cdata_sections (blur_filter sc) = []"
  by (simp_all add: blur_filter_def createElementNS_def)

lemma appendToFirst_texts:
  "appendToFirst t new sc d = Some d' \<Longrightarrow> (\<And>sc' j. texts j (new sc') = [])
     \<Longrightarrow> texts k d' = texts k d"
proof (induction t new sc d arbitrary: d' k rule: appendToFirst.induct)
  case (3 t new sc n as ks)
  show ?case
  proof (cases "n = t")
    case True
    with 3(2) have "d' = Element n as (ks @ [new (inside as sc)])" by simp
    then show ?thesis by (simp add: 3(3))
  next
    case False
    with 3(2) obtain ks' where ks': "try_first (appendToFirst t new (inside as sc)) ks = Some ks'"
      "d' = Element n as ks'" by auto
    from try_first_Some [OF ks'(1)] obtain pre x post y
      where sp: "ks = pre @ x # post" "ks' = pre @ y # post"
        "appendToFirst t new (inside as sc) x = Some y"
      by blast
    have "x \<in> set ks" using sp by simp
    from 3(1) [OF False this sp(3) 3(3)] have "texts j y = texts j x" for j .
    then show ?thesis by (simp add: ks' sp)
  qed
qed simp_all

lemma appendToFirst_cdata:
  "appendToFirst t new sc d = Some d' \<Longrightarrow> (\<And>sc'. cdata_sections (new sc') = [])
     \<Longrightarrow> cdata_sections d' = cdata_sections d"
proof (induction t new sc d arbitrary: d' rule: appendToFirst.induct)
  case (3 t new sc n as ks)
  show ?case
  proof (cases "n = t")
    case True
    with 3(2) have "d' = Element n as (ks @ [new (inside as sc)])" by simp
    then show ?thesis by (simp add: 3(3))
  next
    case False
    with 3(2) obtain ks' where ks': "try_first (appendToFirst t new (inside as sc)) ks = Some ks'"
      "d' = Element n as ks'" by auto
    from try_first_Some [OF ks'(1)] obtain pre x post y
      where sp: "ks = pre @ x # post" "ks' = pre @ y # post"
        "appendToFirst t new (inside as sc) x = Some y"
      by blast
    have "x \<in> set ks" using sp by simp
    from 3(1) [OF False this sp(3) 3(3)] have "cdata_sections y = cdata_sections x" .
    then show ?thesis by (simp add: ks' sp)
  qed
qed simp_all

lemma text_redactImages:
  "texts k (redactImages d) = texts k d \<and> cdata_sections (redactImages d) = cdata_sections d"
proof (cases "redactionTargets d = []")
  case True
  then show ?thesis by (simp add: redactImages_no_targets)
next
  case False
  from redactImages_cases [OF False] consider
    (new) d2 where "appendToFirst (js ''defs'') blur_filter outermost d = Some d2"
      "redactImages d = setFilters d2"
    | (old) "redactImages d = setFilters d"
    | (made) n as ks sc where "d = Element n as ks"
      "redactImages d =
         setFilters (Element n as
           (Element (qualified_name sc (js ''defs'')) (ns_declaration sc)
              (if getElementById FILTER_ID d = None
               then [blur_filter (inside (ns_declaration sc) sc)] else [])
            # ks))"
    by blast
  then show ?thesis
  proof cases
    case new
    from appendToFirst_texts [OF new(1)] appendToFirst_cdata [OF new(1)]
    show ?thesis by (simp add: new(2) texts_setFilters cdata_setFilters blur_filter_no_text)
  next
    case old
    then show ?thesis by (simp add: texts_setFilters cdata_setFilters)
  next
    case made
    show ?thesis
      unfolding made(2) texts_setFilters cdata_setFilters
      by (simp add: made(1) blur_filter_no_text)
  qed
qed

lemma texts_redact: "texts 0 (redact d) = map (\<lambda>(i, t). (i, (mask ^^ i) t)) (texts 0 d)"
  by (simp add: redact_redactText_in texts_redactText_in text_redactImages)

lemma cdata_redact: "cdata_sections (redact d) = cdata_sections d"
  by (simp add: redact_redactText_in cdata_redactText_in text_redactImages)

subsection \<open>The place of the blur filter\<close>

lemma sf_made:
  "sf (qualified_name sc (js ''defs''), as) = (qualified_name sc (js ''defs''), as)"
  by (simp add: sf_pair made_names)

lemma filter_in_defs_redact:
  assumes "redactionTargets d \<noteq> []" and "getElementById FILTER_ID d = None"
  shows "filter_in_defs d (redact d)"
proof -
  from redactImages_cases [OF assms(1)] assms(2) consider
    (new) e es d2 where "getElementsByTagName (js ''defs'') d = e # es"
      "appendToFirst (js ''defs'') blur_filter outermost d = Some d2"
      "redactImages d = setFilters d2"
    | (made) n as ks sc where "d = Element n as ks" "getElementsByTagName (js ''defs'') d = []"
      "redactImages d =
         setFilters (Element n as
           (Element (qualified_name sc (js ''defs'')) (ns_declaration sc)
              [blur_filter (inside (ns_declaration sc) sc)] # ks))"
    by auto
  then show ?thesis
  proof cases
    case new
    from appendToFirst_first [OF new(2)] obtain sc' as ks rest rest'
      where f: "getElementsByTagName (js ''defs'') d = Element (js ''defs'') as ks # rest"
        "getElementsByTagName (js ''defs'') d2
           = Element (js ''defs'') as (ks @ [blur_filter sc']) # rest'"
      by blast
    define e3 where "e3 = Element (js ''defs'') (snd (sf (js ''defs'', as)))
        (map setFilters ks @ [blur_filter sc'])"
    have "getElementsByTagName (js ''defs'') (redactImages d) = e3 # map setFilters rest'"
      unfolding new(3) getElementsByTagName_setFilters f(2)
      by (simp add: e3_def setFilters_Element setFilters_blur_filter del: setFilters.simps)
    from first_redactText_in [OF this, of 0] obtain j es'
      where r: "getElementsByTagName (js ''defs'') (redact d) = redactText_in j e3 # es'"
      unfolding redact_redactText_in by blast
    define j' where "j' = (if is_container (js ''defs'', snd (sf (js ''defs'', as))) then Suc j else j)"
    have e': "redactText_in j e3 = Element (js ''defs'') (snd (sf (js ''defs'', as)))
        (map (redactText_in j') (map setFilters ks) @ [blur_filter sc'])"
      by (simp add: e3_def redactText_in_simps j'_def redactText_in_blur_filter)
    show ?thesis
      unfolding filter_in_defs_def f(1) r e'
      by (simp add: is_blur_filter_blur_filter)
  next
    case made
    define q where "q = qualified_name sc (js ''defs'')"
    define b where "b = blur_filter (inside (ns_declaration sc) sc)"
    have 1: "redactImages d
        = Element n (snd (sf (n, as))) (Element q (ns_declaration sc) [b] # map setFilters ks)"
      unfolding made(3)
      by (simp add: setFilters_Element sf_made setFilters_blur_filter q_def b_def
          del: setFilters.simps)
    define k where "k = (if is_container (n, snd (sf (n, as))) then Suc 0 else 0)"
    define k' where "k' = (if is_container (q, ns_declaration sc) then Suc k else k)"
    have "redact d
        = Element n (snd (sf (n, as)))
            (Element q (ns_declaration sc) [b] # map (redactText_in k) (map setFilters ks))"
      unfolding redact_redactText_in 1
      by (simp add: redactText_in_simps k_def [symmetric] k'_def [symmetric]
          redactText_in_blur_filter b_def)
    then show ?thesis
      unfolding filter_in_defs_def made(2)
      by (simp add: made(1) local_name_def q_def local_part_qualified_name no_colon b_def
          is_blur_filter_blur_filter)
  qed
qed

section \<open>Claims on the blur filter\<close>

text \<open>
  C8, as stated: where a page has a tagged image, the transform makes sure that the blur
  filter exists in the definitions of the page. The transform takes any element with the
  identifier \<open>redact-blur\<close> for the filter: on a page in which a rectangle has that
  identifier it makes a definitions element and no filter, and the tagged image refers to
  the rectangle.
\<close>

theorem foreign_identifier_no_filter:
  "redactionTargets rect_page \<noteq> []
   \<and> redact rect_page =
       Element (js ''svg'') [(js ''xmlns'', js ''http://www.w3.org/2000/svg'')]
         [Element (js ''defs'') [] [],
          Element (js ''rect'') [(js ''id'', js ''redact-blur'')] [],
          Element (js ''image'')
            [(js ''data-tags'', js ''redact-image''), (js ''filter'', js ''url(#redact-blur)'')] []]
   \<and> getElementsByTagName (js ''filter'') (redact rect_page) = []"
proof -
  have t: "shouldRedact (Element (js ''image'') [(js ''data-tags'', js ''redact-image'')] ks)" for ks
    by (simp add: shouldRedact_def getAttribute_def toLowerCase_def js_simps)
  have r: "\<not> shouldRedact (Element (js ''rect'') [(js ''id'', js ''redact-blur'')] ks)" for ks
    by (simp add: shouldRedact_def getAttribute_def js_eq_iff)
  have s: "\<not> shouldRedact (Element (js ''svg'') [(js ''xmlns'', v)] ks)" for v ks
    by (simp add: shouldRedact_def getAttribute_def js_eq_iff)
  have i: "getElementById FILTER_ID
      (Element (js ''svg'') [(js ''xmlns'', js ''http://www.w3.org/2000/svg'')]
         (Element (js ''defs'') [] []
          # [Element (js ''rect'') [(js ''id'', js ''redact-blur'')] [],
             Element (js ''image'') [(js ''data-tags'', js ''redact-image'')] []])) \<noteq> None"
    by (simp add: getElementById_def getAttribute_def FILTER_ID_literal js_eq_iff)
  have sc: "inside [(js ''xmlns'', js ''http://www.w3.org/2000/svg'')] outermost
      = (Some SVG_NS, [])"
    by (simp add: inside_def outermost_def declared_prefixes_def SVG_NS_def js_eq_iff js_Nil_iff)
      (simp add: js_simps)
  have im: "redactImages rect_page =
      Element (js ''svg'') [(js ''xmlns'', js ''http://www.w3.org/2000/svg'')]
        [Element (js ''defs'') [] [],
         Element (js ''rect'') [(js ''id'', js ''redact-blur'')] [],
         Element (js ''image'')
           [(js ''data-tags'', js ''redact-image''), (js ''filter'', js ''url(#redact-blur)'')] []]"
    using i
    by (simp add: redactImages_def rect_page_def getElementsByTagName_def t r s js_eq_iff
        createElementNS_def sc qualified_name_def ns_declaration_def filter_url_literal
        del: not_None_eq)
  have "redactionTargets rect_page \<noteq> []"
    by (simp add: redactionTargets_def rect_page_def getElementsByTagName_def t js_eq_iff)
  moreover have "redact rect_page = redactImages rect_page"
    unfolding redact_def im by (simp add: js_eq_iff)
  ultimately show ?thesis
    unfolding im by (simp add: im getElementsByTagName_def js_eq_iff)
qed

text \<open>
  C8, amended: on a page without a tagged image the transform leaves every element as
  it is. On a page with a tagged image, the transform adds one element with the identifier
  \<open>redact-blur\<close> if no element of the page has that identifier, and none if one has it,
  whatever that element is. The element it adds is the blur filter, a \<open>filter\<close> with a
  Gaussian blur as its only child, and it is the last child of the first element
  \<open>defs\<close> of the page, or the only child of a definitions element that the transform
  puts in as the first child of the root when the page has no element \<open>defs\<close>. The tagged
  images of the result are those of the page, each with its attribute \<open>filter\<close> set to
  \<open>url(#redact-blur)\<close>. Running the transform on its own result adds no element with
  the identifier.
\<close>

theorem blur_filter_made_once:
  "(redactionTargets d = [] \<longrightarrow> heads (redact d) = heads d)
   \<and> count_id (js ''redact-blur'') (redact d)
       = (if redactionTargets d \<noteq> [] \<and> getElementById (js ''redact-blur'') d = None then 1
          else count_id (js ''redact-blur'') d)
   \<and> (redactionTargets d \<noteq> [] \<and> getElementById (js ''redact-blur'') d = None
        \<longrightarrow> filter_in_defs d (redact d))
   \<and> map attributes (redactionTargets (redact d))
       = map (\<lambda>img. set_attr (js ''filter'') (js ''url(#redact-blur)'') (attributes img))
           (redactionTargets d)
   \<and> count_id (js ''redact-blur'') (redact (redact d)) = count_id (js ''redact-blur'') (redact d)"
proof -
  have c: "count_id (js ''redact-blur'') (redact e)
       = (if redactionTargets e \<noteq> [] \<and> getElementById (js ''redact-blur'') e = None then 1
          else count_id (js ''redact-blur'') e)" for e
    using count_id_redact [of e] by (simp only: FILTER_ID_literal)
  have "length (map attributes (redactionTargets (redact d))) = length (redactionTargets d)"
    by (simp only: targets_redact length_map)
  then have "redactionTargets d \<noteq> []" if "redactionTargets (redact d) \<noteq> []"
    using that by auto
  then have "getElementById (js ''redact-blur'') (redact d) \<noteq> None"
    if "redactionTargets (redact d) \<noteq> []"
    using that by (auto simp: getElementById_count c)
  then have "count_id (js ''redact-blur'') (redact (redact d))
      = count_id (js ''redact-blur'') (redact d)"
    by (auto simp: c [of "redact d"])
  moreover have "redactionTargets d \<noteq> [] \<and> getElementById (js ''redact-blur'') d = None
        \<longrightarrow> filter_in_defs d (redact d)"
    using filter_in_defs_redact [of d] by (simp only: FILTER_ID_literal) blast
  ultimately show ?thesis
    using c [of d] targets_redact [of d] heads_redact_no_targets [of d] by blast
qed

text \<open>
  The amended claim on a page with one tagged image and no filter. Its root declares no
  namespace, so the new definitions element is written with the declaration of the SVG
  namespace.
\<close>

lemma tagged_page_targets:
  "redactionTargets tagged_page =
     [Element (js ''image'') [(js ''href'', js ''a.jpg''), (js ''data-tags'', js ''redact-image'')] []]"
  by (simp add: tagged_page_def redactionTargets_def getElementsByTagName_def shouldRedact_def
      getAttribute_def js_def toLowerCase_def)

lemma tagged_page_no_filter: "getElementById (js ''redact-blur'') tagged_page = None"
  by (simp add: tagged_page_def getElementById_def getAttribute_def js_def)

lemma scope_no_declaration:
  "inside [(js ''viewBox'', v)] outermost = (None, [])"
  by (simp add: inside_def outermost_def declared_prefixes_def js_eq_iff) (simp add: js_simps)

lemma inside_Nil: "inside [] sc = sc"
  by (simp add: inside_def declared_prefixes_def)

lemma scope_new_defs:
  "ns_declaration (None, []) = [(js ''xmlns'', SVG_NS)]"
  "qualified_name (None, []) n = n"
  "inside [(js ''xmlns'', SVG_NS)] (None, []) = (Some SVG_NS, [])"
  "ns_declaration (Some SVG_NS, []) = []"
  "qualified_name (Some SVG_NS, []) n = n"
  by (simp_all add: ns_declaration_def qualified_name_def preferred_prefix_def inside_def
      declared_prefixes_def js_eq_iff)
     (simp_all add: SVG_NS_def js_simps)

lemma redactImages_tagged_page:
  "redactImages tagged_page =
     Element (js ''svg'') [(js ''viewBox'', js ''0 0 100 100'')]
       [Element (js ''defs'') [(js ''xmlns'', js ''http://www.w3.org/2000/svg'')]
          [Element (js ''filter'')
             [(js ''id'', js ''redact-blur''), (js ''x'', js ''-50%''), (js ''y'', js ''-50%''),
              (js ''width'', js ''200%''), (js ''height'', js ''200%'')]
             [Element (js ''feGaussianBlur'') [(js ''stdDeviation'', js ''150'')] []]],
        Element (js ''image'')
          [(js ''href'', js ''a.jpg''), (js ''data-tags'', js ''redact-image''),
           (js ''filter'', js ''url(#redact-blur)'')] [],
        Element (js ''text'') [(js ''data-tags'', js ''redact-text'')] [TextNode (js ''Hi'')]]"
proof -
  have t: "shouldRedact (Element (js ''image'')
      [(js ''href'', js ''a.jpg''), (js ''data-tags'', js ''redact-image'')] ks)" for ks
    by (simp add: shouldRedact_def getAttribute_def toLowerCase_def js_simps)
  have i: "getElementById FILTER_ID
      (Element (js ''svg'') [(js ''viewBox'', js ''0 0 100 100'')]
         (Element (js ''defs'') [(js ''xmlns'', SVG_NS)] [] #
          [Element (js ''image'') [(js ''href'', js ''a.jpg''), (js ''data-tags'', js ''redact-image'')] [],
           Element (js ''text'') [(js ''data-tags'', js ''redact-text'')] [TextNode (js ''Hi'')]])) = None"
    by (simp add: getElementById_def getAttribute_def js_eq_iff)
  show ?thesis
    using i
    by (simp add: redactImages_def tagged_page_def getElementsByTagName_def t js_eq_iff
        createElementNS_def scope_no_declaration scope_new_defs inside_Nil blur_filter_def
        filter_url_literal FILTER_ID_literal)
       (simp add: SVG_NS_def)
qed

lemma redact_tagged_page:
  "redact tagged_page =
     Element (js ''svg'') [(js ''viewBox'', js ''0 0 100 100'')]
       [Element (js ''defs'') [(js ''xmlns'', js ''http://www.w3.org/2000/svg'')]
          [Element (js ''filter'')
             [(js ''id'', js ''redact-blur''), (js ''x'', js ''-50%''), (js ''y'', js ''-50%''),
              (js ''width'', js ''200%''), (js ''height'', js ''200%'')]
             [Element (js ''feGaussianBlur'') [(js ''stdDeviation'', js ''150'')] []]],
        Element (js ''image'')
          [(js ''href'', js ''a.jpg''), (js ''data-tags'', js ''redact-image''),
           (js ''filter'', js ''url(#redact-blur)'')] [],
        Element (js ''text'') [(js ''data-tags'', js ''redact-text'')]
          [TextNode (MASK @ MASK)]]"
proof -
  have t: "shouldRedact (Element (js ''text'') [(js ''data-tags'', js ''redact-text'')] ks)" for ks
    by (simp add: shouldRedact_def getAttribute_def toLowerCase_def js_simps)
  have m: "redactTextNodes (TextNode (js ''Hi'')) = TextNode (MASK @ MASK)"
    by (simp add: redactTextNodes_TextNode mask_def mask_with_def isSpace_def js_simps
        del: redactTextNodes.simps)
  show ?thesis
    unfolding redact_def redactImages_tagged_page
    by (simp add: t m js_eq_iff del: redactTextNodes.simps(1))
qed

theorem blur_filter_made_once_witness:
  "redact tagged_page =
     Element (js ''svg'') [(js ''viewBox'', js ''0 0 100 100'')]
       [Element (js ''defs'') [(js ''xmlns'', js ''http://www.w3.org/2000/svg'')]
          [Element (js ''filter'')
             [(js ''id'', js ''redact-blur''), (js ''x'', js ''-50%''), (js ''y'', js ''-50%''),
              (js ''width'', js ''200%''), (js ''height'', js ''200%'')]
             [Element (js ''feGaussianBlur'') [(js ''stdDeviation'', js ''150'')] []]],
        Element (js ''image'')
          [(js ''href'', js ''a.jpg''), (js ''data-tags'', js ''redact-image''),
           (js ''filter'', js ''url(#redact-blur)'')] [],
        Element (js ''text'') [(js ''data-tags'', js ''redact-text'')]
          [TextNode (MASK @ MASK)]]
   \<and> redactionTargets tagged_page \<noteq> []
   \<and> getElementById (js ''redact-blur'') tagged_page = None
   \<and> count_id (js ''redact-blur'') (redact tagged_page) = 1
   \<and> filter_in_defs tagged_page (redact tagged_page)
   \<and> map attributes (redactionTargets (redact tagged_page))
       = [[(js ''href'', js ''a.jpg''), (js ''data-tags'', js ''redact-image''),
           (js ''filter'', js ''url(#redact-blur)'')]]
   \<and> count_id (js ''redact-blur'') (redact (redact tagged_page)) = 1"
proof -
  from blur_filter_made_once [of tagged_page]
  have "redactionTargets tagged_page \<noteq> []
     \<and> getElementById (js ''redact-blur'') tagged_page = None
     \<and> count_id (js ''redact-blur'') (redact tagged_page) = 1
     \<and> filter_in_defs tagged_page (redact tagged_page)
     \<and> map attributes (redactionTargets (redact tagged_page))
         = [[(js ''href'', js ''a.jpg''), (js ''data-tags'', js ''redact-image''),
             (js ''filter'', js ''url(#redact-blur)'')]]
     \<and> count_id (js ''redact-blur'') (redact (redact tagged_page)) = 1"
    by (simp add: tagged_page_targets tagged_page_no_filter js_eq_iff)
  with redact_tagged_page show ?thesis by (rule conjI)
qed

section \<open>Claims on the masking of text\<close>

text \<open>
  A replacement of one character that is not white space keeps the length of a text and
  the places of its white space.
\<close>

lemma mask_with_single:
  assumes "\<not> isSpace g"
  shows "length (mask_with [g] t) = length t"
    and "i < length t \<Longrightarrow> isSpace (mask_with [g] t ! i) \<longleftrightarrow> isSpace (t ! i)"
proof -
  have m: "mask_with [g] t = map (\<lambda>c. if isSpace c then c else g) t"
    by (induction t) (simp_all add: mask_with_def)
  show "length (mask_with [g] t) = length t" by (simp add: m)
  show "isSpace (mask_with [g] t ! i) \<longleftrightarrow> isSpace (t ! i)" if "i < length t"
    using that assms by (simp add: m)
qed

text \<open>The replacement of the source has three characters, none of them white space.\<close>

lemma length_mask: "length (mask t) = length t + 2 * length (filter (\<lambda>c. \<not> isSpace c) t)"
  by (induction t) (simp_all add: mask_def mask_with_def MASK_def)

lemma mask_Hi: "mask (js ''Hi'') = [0xE2, 0x2013, 0xAE, 0xE2, 0x2013, 0xAE]"
  by (simp add: mask_def mask_with_def MASK_def js_def isSpace_def)

text \<open>
  C6: the masked text has the length of the original, and white space stays where it was.
  The source replaces every other character by the three characters of \<open>MASK\<close>, so the
  text \<open>Hello World\<close> of a tagged element, of length 11, becomes a text of length 31, and
  the character at index 1 of the masked text \<open>a b\<close> is not white space although that
  of the original is.
\<close>

theorem mask_length_not_preserved:
  "redact hello_page =
     Element (js ''svg'') []
       [Element (js ''text'') [(js ''data-tags'', js ''redact-text'')]
          [TextNode (MASK @ MASK @ MASK @ MASK @ MASK @ js '' '' @ MASK @ MASK @ MASK @ MASK @ MASK)]]
   \<and> length (mask (js ''Hello World'')) = 31
   \<and> length (js ''Hello World'') = 11
   \<and> isSpace (js ''a b'' ! 1) \<and> \<not> isSpace (mask (js ''a b'') ! 1)"
  by (simp add: hello_page_def redact_def redactImages_def getElementsByTagName_def
      shouldRedact_def getAttribute_def toLowerCase_def trim_def mask_def mask_with_def
      MASK_def isSpace_def js_def)

section \<open>What holds during asset resolution\<close>

lemma map_of_set_attr_upd: "map_of (set_attr k v m) = (map_of m)(k \<mapsto> v)"
  by (induction k v m rule: set_attr.induct) auto

lemma resolver_inv_initial: "resolver_inv E pool initial_rstate"
  by (simp add: resolver_inv_def initial_rstate_def)

lemma resolver_inv_record_asset:
  assumes "resolver_inv E pool st"
    and "startsWith href (js ''http'') \<or> map_of pool (getFilename E href) \<noteq> None"
  shows "resolver_inv E pool (record_asset href name b st)"
  using assms by (auto simp: resolver_inv_def record_asset_def map_of_set_attr_upd)

lemma resolver_inv_record_error:
  assumes "resolver_inv E pool st" and "startsWith href (js ''http'')"
  shows "resolver_inv E pool (record_error href message st)"
  using assms by (auto simp: resolver_inv_def record_error_def network_error_def)

lemma resolver_inv_counters:
  "resolver_inv E pool (st\<lparr>fetches := n\<rparr>) = resolver_inv E pool st"
  "resolver_inv E pool (st\<lparr>draws := n\<rparr>) = resolver_inv E pool st"
  by (simp_all add: resolver_inv_def)

lemma processAsset_inv:
  assumes "resolver_inv E pool st"
  shows "resolver_inv E pool (fst (processAsset E pool href isFont st))"
proof (cases "href = [] \<or> startsWith href (js ''data:'') \<or> startsWith href (js ''#'')
              \<or> \<not> falsy (map_of (urlToFilenameMap st) href)")
  case True
  with assms show ?thesis by (auto simp: processAsset_def Let_def)
next
  case False
  show ?thesis
  proof (cases "map_of pool (getFilename E href)")
    case (Some b)
    with False assms show ?thesis
      by (simp add: processAsset_def Let_def resolver_inv_record_asset)
  next
    case None
    show ?thesis
    proof (cases "startsWith href (js ''http'')")
      case h: True
      with False None assms show ?thesis
        by (auto simp: processAsset_def Let_def resolver_inv_record_asset resolver_inv_record_error
            resolver_inv_counters split: fetch_result.splits sum.splits option.splits)
    next
      case h: False
      with False None assms show ?thesis by (simp add: processAsset_def Let_def)
    qed
  qed
qed

lemma processAsset_unresolvable:
  assumes "resolver_inv E pool st" and "unresolvable E pool href"
  shows "processAsset E pool href isFont st = (st, None)"
proof -
  have "map_of (urlToFilenameMap st) href = None"
  proof (cases "map_of (urlToFilenameMap st) href")
    case (Some n)
    with assms show ?thesis by (auto simp: resolver_inv_def unresolvable_def)
  qed simp
  with assms(2) show ?thesis
    by (simp add: processAsset_def Let_def unresolvable_def falsy_def)
qed

lemma processImage_fst:
  "fst (processImage E pool st as) = st
   \<or> (\<exists>href. fst (processImage E pool st as) = fst (processAsset E pool href False st))"
proof (cases "image_reference as")
  case None
  then show ?thesis by (simp add: processImage_def image_reference_def)
next
  case (Some href)
  show ?thesis
  proof (cases "href = []")
    case True
    with Some show ?thesis by (simp add: processImage_def image_reference_def)
  next
    case False
    obtain st1 r where p: "processAsset E pool href False st = (st1, r)" by (cases "processAsset E pool href False st")
    with Some False have "fst (processImage E pool st as) = st1"
      by (cases r) (simp_all add: processImage_def image_reference_def Let_def)
    with p show ?thesis by (metis fst_conv)
  qed
qed

lemma processImage_inv:
  assumes "resolver_inv E pool st"
  shows "resolver_inv E pool (fst (processImage E pool st as))"
  using processImage_fst [of E pool st as] assms processAsset_inv [OF assms] by auto

lemma processImage_unresolvable:
  assumes "resolver_inv E pool st"
    and "image_reference as = Some href" and "unresolvable E pool href"
  shows "snd (processImage E pool st as) = as"
  using assms processAsset_unresolvable [OF assms(1,3), of False]
  by (simp add: processImage_def image_reference_def unresolvable_def)

lemma thread_Cons:
  "thread f s (x # xs) =
     (fst (thread f (fst (f s x)) xs), snd (f s x) # snd (thread f (fst (f s x)) xs))"
  by (simp add: Let_def split: prod.splits)

lemma thread_inv_all2:
  assumes "\<And>x s. x \<in> set xs \<Longrightarrow> I s \<Longrightarrow> I (fst (f s x)) \<and> Q x (snd (f s x))"
    and "I s"
  shows "I (fst (thread f s xs)) \<and> list_all2 Q xs (snd (thread f s xs))"
  using assms
proof (induction xs arbitrary: s)
  case Nil then show ?case by simp
next
  case (Cons x xs)
  obtain s1 y where f: "f s x = (s1, y)" by (cases "f s x")
  with Cons.prems(1) [of x s] Cons.prems(2) have 1: "I s1" "Q x y" by auto
  have "I (fst (thread f s1 xs)) \<and> list_all2 Q xs (snd (thread f s1 xs))"
    using Cons.prems(1) 1(1) by (intro Cons.IH) auto
  with 1 f show ?case by (simp add: thread_Cons del: thread.simps)
qed

lemma list_all2_concat_heads:
  "list_all2 (\<lambda>k k'. list_all2 R (heads k) (heads k')) ks ks'
     \<Longrightarrow> list_all2 R (concat (map heads ks)) (concat (map heads ks'))"
  by (induction ks ks' rule: list_all2_induct) (auto intro: list_all2_appendI)

lemma kept_refl: "kept_if_unresolvable E pool h h"
  by (simp add: kept_if_unresolvable_def)

lemma bundleImages_inv_kept:
  "resolver_inv E pool st \<Longrightarrow>
     resolver_inv E pool (fst (bundleImages E pool st d))
     \<and> list_all2 (kept_if_unresolvable E pool) (heads d) (heads (snd (bundleImages E pool st d)))"
proof (induction E pool st d rule: bundleImages.induct)
  case (1 E pool st t)
  then show ?case by simp
next
  case (2 E pool st t)
  then show ?case by simp
next
  case (3 E pool st n as ks)
  obtain st1 as1 where a: "(if n = js ''image'' then processImage E pool st as else (st, as)) = (st1, as1)"
    by (cases "if n = js ''image'' then processImage E pool st as else (st, as)")
  have st1: "resolver_inv E pool st1"
    using a 3(2) processImage_inv [OF 3(2), of as] by (auto split: if_splits)
  have k: "kept_if_unresolvable E pool (n, as) (n, as1)"
  proof (cases "n = js ''image''")
    case True
    with a have as1: "as1 = snd (processImage E pool st as)" by simp
    show ?thesis
      using processImage_unresolvable [OF 3(2), of as]
      by (auto simp: kept_if_unresolvable_def as1 split: option.splits)
  next
    case False
    with a show ?thesis by (simp add: kept_refl)
  qed
  have "resolver_inv E pool (fst (thread (bundleImages E pool) st1 ks))
      \<and> list_all2 (\<lambda>k k'. list_all2 (kept_if_unresolvable E pool) (heads k) (heads k'))
            ks (snd (thread (bundleImages E pool) st1 ks))"
    using 3(1) [OF a [symmetric] refl] st1
    by (intro thread_inv_all2 [where I = "resolver_inv E pool"]) auto
  then show ?case using a k
    by (auto simp: Let_def split: prod.splits intro: list_all2_concat_heads)
qed

lemma thread_inv:
  assumes "\<And>x s. x \<in> set xs \<Longrightarrow> I s \<Longrightarrow> I (fst (f s x))" and "I s"
  shows "I (fst (thread f s xs))"
  using thread_inv_all2 [where Q = "\<lambda>x y. True" and I = I and f = f and xs = xs and s = s] assms
  by simp

lemma processStyleUrl_inv:
  "resolver_inv E pool (fst p) \<Longrightarrow> resolver_inv E pool (fst (processStyleUrl E pool url p))"
proof -
  assume i: "resolver_inv E pool (fst p)"
  obtain st css where p: "p = (st, css)" by (cases p)
  obtain st1 r where a: "processAsset E pool url True st = (st1, r)"
    by (cases "processAsset E pool url True st")
  have "resolver_inv E pool st1"
    using processAsset_inv [of E pool st url True] i a p by simp
  with i p a show ?thesis
    by (cases r) (simp_all add: processStyleUrl_def)
qed

lemma processStyle_inv:
  "resolver_inv E pool st \<Longrightarrow> resolver_inv E pool (fst (processStyle E pool st css))"
proof -
  have "resolver_inv E pool (fst p) \<Longrightarrow> resolver_inv E pool (fst (fold (processStyleUrl E pool) us p))"
    for us p
    by (induction us arbitrary: p) (simp_all add: processStyleUrl_inv)
  then show "resolver_inv E pool st \<Longrightarrow> ?thesis"
    by (simp add: processStyle_def)
qed

lemma bundleStyles_inv:
  "resolver_inv E pool st \<Longrightarrow> resolver_inv E pool (fst (bundleStyles E pool st d))"
proof (induction E pool st d rule: bundleStyles.induct)
  case (1 E pool st t)
  then show ?case by simp
next
  case (2 E pool st t)
  then show ?case by simp
next
  case (3 E pool st n as ks)
  show ?case
  proof (cases "n = js ''style'' \<and> css_urls (concat (map textContent ks)) \<noteq> []")
    case True
    obtain st1 css where p: "processStyle E pool st (concat (map textContent ks)) = (st1, css)"
      by (cases "processStyle E pool st (concat (map textContent ks))")
    have "resolver_inv E pool st1"
      using processStyle_inv [OF 3(3), of "concat (map textContent ks)"] p by simp
    then have "resolver_inv E pool (fst (thread (bundleStyles E pool) st1 ks))"
    proof (rule thread_inv [rotated])
      fix x s assume "x \<in> set ks" "resolver_inv E pool s"
      then show "resolver_inv E pool (fst (bundleStyles E pool s x))"
        using 3(1) [OF True p [symmetric] refl] by blast
    qed
    moreover have "fst (bundleStyles E pool st (Element n as ks))
        = fst (thread (bundleStyles E pool) st1 ks)"
      using True p by (simp add: split_beta)
    ultimately show ?thesis by simp
  next
    case False
    have "resolver_inv E pool (fst (thread (bundleStyles E pool) st ks))"
      using 3(3)
    proof (rule thread_inv [rotated])
      fix x s assume "x \<in> set ks" "resolver_inv E pool s"
      then show "resolver_inv E pool (fst (bundleStyles E pool s x))"
        using 3(2) [OF False] by blast
    qed
    moreover have "fst (bundleStyles E pool st (Element n as ks))
        = fst (thread (bundleStyles E pool) st ks)"
      using False by (auto simp add: split_beta)
    ultimately show ?thesis by simp
  qed
qed

lemma bundleResources_errors:
  assumes "bundleResources E d pool = Inr r"
  shows "\<forall>e\<in>set (result_errors r). network_error e"
proof -
  obtain st1 doc1 where 1: "bundleImages E pool initial_rstate d = (st1, doc1)"
    by (cases "bundleImages E pool initial_rstate d")
  obtain st2 doc2 where 2: "bundleStyles E pool st1 doc1 = (st2, doc2)"
    by (cases "bundleStyles E pool st1 doc1")
  have "resolver_inv E pool st1"
    using bundleImages_inv_kept [OF resolver_inv_initial, of E pool d] 1 by simp
  then have "resolver_inv E pool st2"
    using bundleStyles_inv [of E pool st1 doc1] 2 by simp
  moreover have "result_errors r = errors st2"
    using assms 1 2 by (auto simp: bundleResources_def split: if_splits)
  ultimately show ?thesis by (simp add: resolver_inv_def)
qed

lemma missing_unresolvable: "unresolvable example_env [] (js ''missing.png'')"
  by (simp add: unresolvable_def js_simps)

lemma missing_reference:
  "image_reference [(js ''href'', js ''missing.png'')] = Some (js ''missing.png'')"
  by (simp add: image_reference_def js_or_def falsy_def js_Nil_iff)

lemma missing_page_heads:
  "heads missing_page = [(js ''svg'', []), (js ''image'', [(js ''href'', js ''missing.png'')])]"
  by (simp add: missing_page_def)

lemma missing_page_processAsset:
  "processAsset example_env [] (js ''missing.png'') False initial_rstate = (initial_rstate, None)"
  using resolver_inv_initial missing_unresolvable by (rule processAsset_unresolvable)

lemma missing_page_images:
  "bundleImages example_env [] initial_rstate missing_page = (initial_rstate, missing_page)"
  using missing_reference
  by (simp add: missing_page_def processImage_def missing_page_processAsset
      image_reference_def js_eq_iff js_Nil_iff)

lemma css_urls_Nil: "css_urls [] = []"
  by simp

section \<open>Claims on references that cannot be resolved\<close>

text \<open>
  C4, as stated: a relative reference without a match in the pool is left as it is and an
  error that names it is recorded. The second half fails: for a page whose only image
  refers to \<open>missing.png\<close>, with an empty pool, the call returns the page unchanged
  and an empty list of errors.
\<close>

theorem unresolvable_reference_no_error:
  "bundleResources example_env missing_page [] =
     Inr \<lparr>content = missing_page, result_assets = [], result_errors = []\<rparr>"
proof -
  have "getElementsByTagName (js ''parsererror'') missing_page = []"
    by (simp add: getElementsByTagName_def missing_page_def js_eq_iff)
  moreover have "bundleStyles example_env [] initial_rstate missing_page = (initial_rstate, missing_page)"
    by (simp add: missing_page_def js_eq_iff)
  moreover have "assets initial_rstate = []" "errors initial_rstate = []"
    by (simp_all add: initial_rstate_def)
  ultimately show ?thesis
    by (simp add: bundleResources_def missing_page_images)
qed

text \<open>
  C4, amended: a reference that is not a network address and has no match in the pool
  gets no local name and no error. After the loop over the images every element has the
  tag name it had, and an image whose reference is of this kind has the attributes it had;
  and every error that \<open>bundleResources\<close> returns names a network address, so none
  names such a reference.
\<close>

theorem unresolvable_reference_untouched:
  "list_all2 (kept_if_unresolvable E pool) (heads d)
     (heads (snd (bundleImages E pool initial_rstate d)))
   \<and> (\<forall>r. bundleResources E d pool = Inr r \<longrightarrow> (\<forall>e\<in>set (result_errors r). network_error e))"
  using bundleImages_inv_kept [OF resolver_inv_initial, of E pool d] bundleResources_errors
  by blast

text \<open>The amended claim on the page that refers to \<open>missing.png\<close>.\<close>

theorem unresolvable_reference_untouched_witness:
  "unresolvable example_env [] (js ''missing.png'')
   \<and> image_reference [(js ''href'', js ''missing.png'')] = Some (js ''missing.png'')
   \<and> (js ''image'', [(js ''href'', js ''missing.png'')])
       \<in> set (heads (snd (bundleImages example_env [] initial_rstate missing_page)))"
  using unresolvable_reference_untouched [of example_env "[]" missing_page]
  by (auto simp: missing_page_heads missing_unresolvable missing_reference list_all2_Cons1
      kept_if_unresolvable_def)

section \<open>A reference that is fetched\<close>

lemma startsWith_http_not_skipped:
  assumes "startsWith href (js ''http'')"
  shows "href \<noteq> []" "\<not> startsWith href (js ''data:'')" "\<not> startsWith href (js ''#'')"
proof -
  from assms obtain r where "href = js ''http'' @ r"
    by (cases href; cases "tl href"; cases "tl (tl href)"; cases "tl (tl (tl href))")
       (auto simp: js_simps)
  then show "href \<noteq> []" "\<not> startsWith href (js ''data:'')" "\<not> startsWith href (js ''#'')"
    by (simp_all add: js_simps)
qed

lemma synthesized_not_empty: "synthesized E href isFont contentType st \<noteq> []"
  by (simp add: synthesized_def js_simps)

lemma processAsset_fetched:
  assumes "startsWith href (js ''http'')"
    and "falsy (map_of (urlToFilenameMap st) href)"
    and "map_of preloadedAssets (getFilename E href) = None"
    and "fetch E (fetches st) href = Response True contentType (Inr b)"
  shows "processAsset E preloadedAssets href isFont st =
           (record_asset href (synthesized E href isFont contentType st) b
              (st\<lparr>fetches := Suc (fetches st), draws := Suc (draws st)\<rparr>),
            Some (synthesized E href isFont contentType st))"
  using assms startsWith_http_not_skipped [OF assms(1)] synthesized_not_empty [of E href isFont contentType st]
  by (simp add: processAsset_def Let_def synthesized_def or_null_def)

lemma processImage_fetched:
  assumes "map_of as (js ''href'') = Some href"
    and "processAsset E pool href False st = (st1, Some name)" and "href \<noteq> []"
  shows "map_of (snd (processImage E pool st as)) (js ''href'') = Some (js ''images/'' @ name)"
proof -
  have "js ''xlink:href'' \<noteq> js ''href''" by (simp add: js_eq_iff)
  then have "map_of (set_attr (js ''xlink:href'') v m) (js ''href'') = map_of m (js ''href'')" for v m
    by (simp add: map_of_set_attr_upd)
  with assms show ?thesis
    by (simp add: processImage_def js_or_def falsy_def Let_def map_of_set_attr_upd)
qed

lemma getFilename_a: "getFilename example_env (js ''https://ex.com/a.jpg'') = js ''a.jpg''"
  by (simp add: getFilename_def example_env_simps after_last_def slash_def js_simps)

lemma a_jpg_conditions:
  "startsWith (js ''https://ex.com/a.jpg'') (js ''http'')"
  "falsy (map_of (urlToFilenameMap initial_rstate) (js ''https://ex.com/a.jpg''))"
  "map_of [] (getFilename example_env (js ''https://ex.com/a.jpg'')) = (None :: blob option)"
  "fetch example_env (fetches initial_rstate) (js ''https://ex.com/a.jpg'')
     = Response True (Some (js ''image/jpeg'')) (Inr [255, 216])"
  by (simp_all add: js_simps initial_rstate_def falsy_def example_env_simps)

lemma a_jpg_name:
  "synthesized example_env (js ''https://ex.com/a.jpg'') False (Some (js ''image/jpeg'')) initial_rstate
     = js ''asset_k3x9qz.jpg''"
  unfolding synthesized_def getFilename_a
  by (simp add: fallback_ext_def after_last_def dot_def example_env_simps js_simps)

lemma scenario_A_images:
  "bundleImages example_env [] initial_rstate scenario_A =
     (record_asset (js ''https://ex.com/a.jpg'') (js ''asset_k3x9qz.jpg'') [255, 216]
        (initial_rstate\<lparr>fetches := Suc (fetches initial_rstate), draws := Suc (draws initial_rstate)\<rparr>),
      Element (js ''svg'') []
        [Element (js ''image'') [(js ''href'', js ''images/asset_k3x9qz.jpg'')] []])"
proof -
  have "js ''images/'' @ js ''asset_k3x9qz.jpg'' = js ''images/asset_k3x9qz.jpg''"
    by (simp add: js_simps)
  then show ?thesis
    using processAsset_fetched [OF a_jpg_conditions, of False]
    by (simp add: scenario_A_def processImage_def js_or_def falsy_def a_jpg_name js_eq_iff
        js_Nil_iff)
qed

section \<open>Claims on the name of a fetched asset\<close>

text \<open>
  C5, as stated: a fetched asset is named after the file name of its address, a
  synthesized name being the exception, so that fetching \<open>https://ex.com/a.jpg\<close> into
  an empty pool makes the reference of the image \<open>images/a.jpg\<close>. In the example
  environment, where every random draw gives \<open>k3x9qz\<close>, the reference becomes
  \<open>images/asset_k3x9qz.jpg\<close> and the asset is named \<open>asset_k3x9qz.jpg\<close>.
\<close>

theorem scenario_A_reference:
  "bundleResources example_env scenario_A [] =
     Inr \<lparr>content = Element (js ''svg'') []
                      [Element (js ''image'') [(js ''href'', js ''images/asset_k3x9qz.jpg'')] []],
          result_assets = [\<lparr>originalUrl = js ''https://ex.com/a.jpg'',
                            localFileName = js ''asset_k3x9qz.jpg'', blob = [255, 216]\<rparr>],
          result_errors = []\<rparr>
   \<and> js ''images/asset_k3x9qz.jpg'' \<noteq> js ''images/a.jpg''"
proof -
  have "getElementsByTagName (js ''parsererror'') scenario_A = []"
    by (simp add: getElementsByTagName_def scenario_A_def js_eq_iff)
  moreover have "bundleStyles example_env [] st
      (Element (js ''svg'') [] [Element (js ''image'') [(js ''href'', js ''images/asset_k3x9qz.jpg'')] []])
      = (st, Element (js ''svg'') [] [Element (js ''image'') [(js ''href'', js ''images/asset_k3x9qz.jpg'')] []])"
    for st
    by (simp add: js_eq_iff)
  moreover have "assets (record_asset h n b (initial_rstate\<lparr>fetches := x, draws := y\<rparr>))
      = [\<lparr>originalUrl = h, localFileName = n, blob = b\<rparr>]"
    "errors (record_asset h n b (initial_rstate\<lparr>fetches := x, draws := y\<rparr>)) = []"
    for h n b x y
    by (simp_all add: record_asset_def initial_rstate_def)
  ultimately show ?thesis
    by (simp add: bundleResources_def scenario_A_images js_eq_iff)
qed

text \<open>
  C5, amended: when a reference that starts with \<open>http\<close>, has no local name yet and
  no match in the pool is fetched with success, the asset always gets a synthesized name:
  \<open>asset_\<close>, a random suffix, a dot and an extension, which is the part of the file
  name of the address after its last dot (or \<open>bin\<close> when that part is empty), or, for
  a font whose file name has no font extension, the one read off the content type. The
  reference of an image becomes \<open>images/\<close> followed by that name.
\<close>

theorem fetched_asset_gets_synthesized_name:
  assumes "startsWith href (js ''http'')"
    and "falsy (map_of (urlToFilenameMap st) href)"
    and "map_of pool (getFilename E href) = None"
    and "fetch E (fetches st) href = Response True contentType (Inr b)"
  shows "processAsset E pool href isFont st =
           (record_asset href (synthesized E href isFont contentType st) b
              (st\<lparr>fetches := Suc (fetches st), draws := Suc (draws st)\<rparr>),
            Some (synthesized E href isFont contentType st))
         \<and> startsWith (synthesized E href isFont contentType st) (js ''asset_'')
         \<and> (map_of as (js ''href'') = Some href \<longrightarrow>
               map_of (snd (processImage E pool st as)) (js ''href'')
                 = Some (js ''images/'' @ synthesized E href False contentType st))"
proof -
  have 1: "processAsset E pool href f st =
           (record_asset href (synthesized E href f contentType st) b
              (st\<lparr>fetches := Suc (fetches st), draws := Suc (draws st)\<rparr>),
            Some (synthesized E href f contentType st))" for f
    using assms by (rule processAsset_fetched)
  have 2: "startsWith (synthesized E href isFont contentType st) (js ''asset_'')"
    by (simp add: synthesized_def js_simps)
  have 3: "map_of (snd (processImage E pool st as)) (js ''href'')
             = Some (js ''images/'' @ synthesized E href False contentType st)"
    if "map_of as (js ''href'') = Some href"
    using that 1 [of False] startsWith_http_not_skipped(1) [OF assms(1)]
    by (rule processImage_fetched)
  from 1 [of isFont] 2 3 show ?thesis by blast
qed

text \<open>The amended claim at the address \<open>https://ex.com/a.jpg\<close> and the empty pool.\<close>

theorem fetched_asset_gets_synthesized_name_witness:
  "startsWith (js ''https://ex.com/a.jpg'') (js ''http'')
   \<and> falsy (map_of (urlToFilenameMap initial_rstate) (js ''https://ex.com/a.jpg''))
   \<and> map_of [] (getFilename example_env (js ''https://ex.com/a.jpg'')) = (None :: blob option)
   \<and> fetch example_env (fetches initial_rstate) (js ''https://ex.com/a.jpg'')
       = Response True (Some (js ''image/jpeg'')) (Inr [255, 216])
   \<and> snd (processAsset example_env [] (js ''https://ex.com/a.jpg'') False initial_rstate)
       = Some (js ''asset_k3x9qz.jpg'')"
  using fetched_asset_gets_synthesized_name [OF a_jpg_conditions, of False] a_jpg_conditions
  by (simp add: a_jpg_name)

section \<open>The top of the archive\<close>

lemma map_of_map_set: "map_of (map_set k v m) = (map_of m)(k \<mapsto> v)"
  by (induction k v m rule: map_set.induct) auto

lemma zip_files_addAssetToZip: "zip_files (addAssetToZip n b z) = zip_files z"
  by (simp add: addAssetToZip_def)

lemma zip_files_fold_assets:
  "zip_files (fold (\<lambda>asset. addAssetToZip (localFileName asset) (blob asset)) as z) = zip_files z"
  by (induction as arbitrary: z) (simp_all add: zip_files_addAssetToZip)

lemma zip_files_fold_pool:
  "zip_files (fold (\<lambda>(filename, b). addAssetToZip filename b) pool z) = zip_files z"
  by (induction pool arbitrary: z) (auto simp: zip_files_addAssetToZip)

lemma zip_files_zip_document:
  "zip_files (zip_document f z) =
     (case processedContent f of
        None \<Rightarrow> zip_files z
      | Some c \<Rightarrow> map_set (file_name (originalFile f)) (redact c) (zip_files z))"
  by (cases "processedContent f") (simp_all add: zip_document_def zip_files_fold_assets)

lemma map_of_fold_zip_document:
  "map_of (zip_files (fold zip_document fs z)) n =
     (case filter (named_content n) fs of
        [] \<Rightarrow> map_of (zip_files z) n
      | g # gs \<Rightarrow> map_option redact (processedContent (last (g # gs))))"
proof (induction fs arbitrary: z)
  case Nil
  then show ?case by simp
next
  case (Cons f fs)
  show ?case
  proof (cases "filter (named_content n) fs")
    case Nil
    show ?thesis
    proof (cases "named_content n f")
      case True
      then obtain c where "processedContent f = Some c" "file_name (originalFile f) = n"
        by (auto simp: named_content_def)
      with True Nil show ?thesis
        by (simp add: Cons.IH zip_files_zip_document map_of_map_set)
    next
      case False
      then have "map_of (zip_files (zip_document f z)) n = map_of (zip_files z) n"
        by (cases "processedContent f")
           (auto simp: zip_files_zip_document map_of_map_set named_content_def)
      with False Nil show ?thesis by (simp add: Cons.IH)
    qed
  next
    case (Cons g gs)
    then show ?thesis by (simp add: Cons.IH)
  qed
qed

lemma redact_hello_page:
  "redact hello_page =
     Element (js ''svg'') []
       [Element (js ''text'') [(js ''data-tags'', js ''redact-text'')]
          [TextNode (MASK @ MASK @ MASK @ MASK @ MASK @ js '' '' @ MASK @ MASK @ MASK @ MASK @ MASK)]]"
  by (simp add: hello_page_def redact_def redactImages_def getElementsByTagName_def
      shouldRedact_def getAttribute_def toLowerCase_def trim_def mask_def mask_with_def
      MASK_def isSpace_def js_def)

lemma getValidFiles_hello_app: "getValidFiles hello_app = files_state hello_app"
  by (simp add: getValidFiles_def hello_app_def)

section \<open>Claims on the markup in the archive\<close>

text \<open>
  C2, as stated: the archive holds the markup of every eligible document under its
  original name, with no redaction applied. \<open>downloadZip\<close> applies \<open>redact\<close> before
  it writes: for a collection that holds the page with the tagged text \<open>Hello World\<close>,
  the file \<open>page.svg\<close> of the archive holds the masked text.
\<close>

theorem archive_markup_is_redacted:
  "map_option zip_files (downloadZip hello_app) =
     Some [(js ''page.svg'',
            Element (js ''svg'') []
              [Element (js ''text'') [(js ''data-tags'', js ''redact-text'')]
                 [TextNode (MASK @ MASK @ MASK @ MASK @ MASK @ js '' '' @ MASK @ MASK @ MASK @ MASK @ MASK)]])]
   \<and> MASK @ MASK @ MASK @ MASK @ MASK @ js '' '' @ MASK @ MASK @ MASK @ MASK @ MASK
       \<noteq> js ''Hello World''"
proof -
  have "map_option zip_files (downloadZip hello_app) = Some [(js ''page.svg'', redact hello_page)]"
    by (simp add: downloadZip_def getValidFiles_hello_app Let_def)
       (simp add: hello_app_def zip_files_zip_document)
  moreover have "MASK @ MASK @ MASK @ MASK @ MASK @ js '' '' @ MASK @ MASK @ MASK @ MASK @ MASK
       \<noteq> js ''Hello World''"
    by (simp add: MASK_def js_def)
  ultimately show ?thesis by (simp add: redact_hello_page)
qed

text \<open>
  C2, amended: when there is an eligible document (status \<open>IDLE\<close> or \<open>COMPLETED\<close>),
  an archive is written, and the file it holds under a name is the markup that the
  redaction transform makes of the content of the last eligible document of that name
  that has a content; it holds no file under a name that no such document has. The
  transform keeps the tags, the same elements carry the same tags afterwards; it masks
  every text node once for each tagged text container around it; it leaves the \<open>CDATA\<close>
  sections as they are; and it sets the attribute \<open>filter\<close> of every tagged image to
  \<open>url(#redact-blur)\<close>.
\<close>

theorem archive_holds_redacted_markup:
  assumes "getValidFiles st \<noteq> []"
  shows "(\<exists>z. downloadZip st = Some z
           \<and> (\<forall>name. map_of (zip_files z) name =
                 (case archived st name of
                    [] \<Rightarrow> None
                  | g # gs \<Rightarrow> map_option redact (processedContent (last (g # gs))))))
         \<and> (\<forall>c. tagged_elements (redact c) = tagged_elements c
               \<and> texts 0 (redact c) = map (\<lambda>(k, t). (k, (mask ^^ k) t)) (texts 0 c)
               \<and> cdata_sections (redact c) = cdata_sections c
               \<and> map attributes (redactionTargets (redact c))
                   = map (\<lambda>img. set_attr (js ''filter'') (js ''url(#redact-blur)'')
                                  (attributes img))
                       (redactionTargets c))"
proof -
  define z1 where "z1 = fold (\<lambda>(filename, b). addAssetToZip filename b) (preloadedAssets_state st)
      \<lparr>zip_files = [], imagesFolder = [], fontsFolder = [], addedAssets = []\<rparr>"
  have "map_of (zip_files z1) name = None" for name
    by (simp add: z1_def zip_files_fold_pool)
  then have "map_of (zip_files (fold zip_document (getValidFiles st) z1)) name =
      (case archived st name of
         [] \<Rightarrow> None
       | g # gs \<Rightarrow> map_option redact (processedContent (last (g # gs))))" for name
    by (simp add: map_of_fold_zip_document archived_def split: list.splits)
  moreover have "downloadZip st = Some (fold zip_document (getValidFiles st) z1)"
    using assms by (simp add: downloadZip_def Let_def z1_def)
  ultimately have "\<exists>z. downloadZip st = Some z
           \<and> (\<forall>name. map_of (zip_files z) name =
                 (case archived st name of
                    [] \<Rightarrow> None
                  | g # gs \<Rightarrow> map_option redact (processedContent (last (g # gs)))))"
    by blast
  then show ?thesis
    by (simp only: tagged_elements_redact texts_redact cdata_redact targets_redact simp_thms)
qed

text \<open>The amended claim on the collection that holds the page of scenario C.\<close>

lemma texts_hello_page: "texts 0 hello_page = [(1, js ''Hello World'')]"
  by (simp add: hello_page_def is_container_def shouldRedact_def getAttribute_def
      toLowerCase_def js_simps)

theorem archive_holds_redacted_markup_witness:
  "getValidFiles hello_app \<noteq> []
   \<and> (\<exists>z. downloadZip hello_app = Some z
          \<and> map_of (zip_files z) (js ''page.svg'') = Some (redact hello_page))
   \<and> tagged_elements (redact hello_page) = tagged_elements hello_page
   \<and> texts 0 (redact hello_page) = [(1, mask (js ''Hello World''))]"
proof -
  have v: "getValidFiles hello_app \<noteq> []"
    by (simp add: getValidFiles_hello_app) (simp add: hello_app_def)
  have "archived hello_app (js ''page.svg'') = files_state hello_app"
    by (simp add: archived_def getValidFiles_hello_app) (simp add: hello_app_def named_content_def)
  then have "(case archived hello_app (js ''page.svg'') of
                [] \<Rightarrow> None
              | g # gs \<Rightarrow> map_option redact (processedContent (last (g # gs))))
             = Some (redact hello_page)"
    by (simp add: hello_app_def)
  with archive_holds_redacted_markup [OF v] v show ?thesis
    by (auto simp: texts_hello_page)
qed

section \<open>Intake and bundling of a document\<close>

lemma new_document_fields:
  "status (new_document E n f) = IDLE"
  "processedContent (new_document E n f) = file_text f"
  "originalFile (new_document E n f) = f"
  by (simp_all add: new_document_def parse_def)

lemma files_handleFilesAdded:
  "files_state (handleFilesAdded E newFiles newAssets st) =
     files_state st @ map (\<lambda>(n, f). new_document E n f) (enumerate (ids_drawn st) newFiles)"
  by (simp add: handleFilesAdded_def)

lemma intake_documents:
  "map originalFile (map (\<lambda>(n, f). new_document E n f) (enumerate k newFiles)) = newFiles"
  by (induction newFiles arbitrary: k) (simp_all add: new_document_fields)

lemma intake_idle:
  "d \<in> set (map (\<lambda>(n, f). new_document E n f) (enumerate k newFiles))
     \<Longrightarrow> status d = IDLE \<and> processedContent d = file_text (originalFile d)"
  by (induction newFiles arbitrary: k) (auto simp: new_document_fields)

lemma bundleFile_malformed:
  assumes "processedContent fileItem = Some c" and "malformed c"
  shows "bundleFile E fileItem st =
           updateFileStatus (file_id fileItem)
             (\<lambda>f. f\<lparr>status := ERROR, progress := 100,
                     file_errors := [js ''Invalid SVG file format'']\<rparr>) st"
  using assms by (simp add: bundleFile_def bundleResources_def malformed_def)

lemma malformed_malformed_page: "malformed malformed_page"
  by (simp add: malformed_def malformed_page_def getElementsByTagName_def)

lemma intake_bad_file:
  "handleFilesAdded example_env [bad_file] [] empty_app =
     \<lparr>files_state =
        [\<lparr>file_id = js ''x'', originalFile = bad_file, processedContent = Some malformed_page,
          status = IDLE, file_assets = [], file_errors = [], progress = 0\<rparr>],
      preloadedAssets_state = [], ids_drawn = 1\<rparr>"
  by (simp add: handleFilesAdded_def empty_app_def new_document_def parse_def bad_file_def
      example_env_def js_def)

section \<open>Claims on a document that does not parse\<close>

text \<open>
  C9, as stated: a document that does not parse is rejected at intake and never enters the
  collection in a usable state. \<open>handleFilesAdded\<close> checks nothing: a file whose text
  does not parse enters the collection with the status \<open>IDLE\<close> and is among the
  documents that the exports take.
\<close>

theorem malformed_document_enters_collection:
  "malformed malformed_page
   \<and> getValidFiles (handleFilesAdded example_env [bad_file] [] empty_app) =
       [\<lparr>file_id = js ''x'', originalFile = bad_file, processedContent = Some malformed_page,
         status = IDLE, file_assets = [], file_errors = [], progress = 0\<rparr>]"
  by (simp add: intake_bad_file getValidFiles_def malformed_malformed_page)

text \<open>
  C9, amended: every dropped file enters the collection with the status \<open>IDLE\<close> and its
  text as content, and is eligible for the exports, whether it parses or not. A document
  that does not parse is rejected when its resources are bundled: \<open>bundleFile\<close> gives
  it the status \<open>ERROR\<close> and the error \<open>Invalid SVG file format\<close>, and it is no
  longer eligible.
\<close>

theorem malformed_document_admitted_then_rejected:
  "(let st' = handleFilesAdded E newFiles newAssets st;
        new = drop (length (files_state st)) (files_state st')
    in map originalFile new = newFiles
       \<and> (\<forall>d\<in>set new. status d = IDLE \<and> processedContent d = file_text (originalFile d)
                        \<and> d \<in> set (getValidFiles st')))
   \<and> (processedContent fileItem = Some c \<and> malformed c \<longrightarrow>
        (\<forall>d\<in>set (files_state (bundleFile E fileItem st)).
            file_id d = file_id fileItem \<longrightarrow>
              status d = ERROR \<and> file_errors d = [js ''Invalid SVG file format'']
              \<and> d \<notin> set (getValidFiles (bundleFile E fileItem st))))"
proof -
  define st' where "st' = handleFilesAdded E newFiles newAssets st"
  define new where "new = map (\<lambda>(n, f). new_document E n f) (enumerate (ids_drawn st) newFiles)"
  have f: "files_state st' = files_state st @ new"
    by (simp add: st'_def new_def files_handleFilesAdded)
  then have d: "drop (length (files_state st)) (files_state st') = new" by simp
  have 1: "map originalFile new = newFiles" unfolding new_def by (rule intake_documents)
  have 2: "status d = IDLE \<and> processedContent d = file_text (originalFile d)
           \<and> d \<in> set (getValidFiles st')" if "d \<in> set new" for d
    using that intake_idle [of d E "ids_drawn st" newFiles]
    by (simp add: new_def [symmetric] getValidFiles_def f)
  have 3: "status d = ERROR \<and> file_errors d = [js ''Invalid SVG file format'']
           \<and> d \<notin> set (getValidFiles (bundleFile E fileItem st))"
    if "processedContent fileItem = Some c" "malformed c"
      "d \<in> set (files_state (bundleFile E fileItem st))" "file_id d = file_id fileItem" for d
    using that(3,4) unfolding bundleFile_malformed [OF that(1,2)]
    by (auto simp: updateFileStatus_def getValidFiles_def split: if_splits)
  from 1 2 3 show ?thesis
    unfolding Let_def st'_def [symmetric] d by blast
qed

text \<open>The amended claim on the file \<open>bad.svg\<close>, dropped and then bundled.\<close>

theorem malformed_document_admitted_then_rejected_witness:
  "processedContent \<lparr>file_id = js ''x'', originalFile = bad_file,
       processedContent = Some malformed_page, status = IDLE, file_assets = [],
       file_errors = [], progress = 0\<rparr> = Some malformed_page
   \<and> malformed malformed_page
   \<and> map status (files_state (bundleFile example_env
        \<lparr>file_id = js ''x'', originalFile = bad_file,
          processedContent = Some malformed_page, status = IDLE, file_assets = [],
          file_errors = [], progress = 0\<rparr>
        (handleFilesAdded example_env [bad_file] [] empty_app))) = [ERROR]
   \<and> getValidFiles (bundleFile example_env
        \<lparr>file_id = js ''x'', originalFile = bad_file,
          processedContent = Some malformed_page, status = IDLE, file_assets = [],
          file_errors = [], progress = 0\<rparr>
        (handleFilesAdded example_env [bad_file] [] empty_app)) = []"
proof -
  let ?d = "\<lparr>file_id = js ''x'', originalFile = bad_file,
       processedContent = Some malformed_page, status = IDLE, file_assets = [],
       file_errors = [], progress = 0\<rparr>"
  let ?st = "handleFilesAdded example_env [bad_file] [] empty_app"
  have fs: "files_state (bundleFile example_env ?d ?st)
      = [?d\<lparr>status := ERROR, progress := 100, file_errors := [js ''Invalid SVG file format'']\<rparr>]"
    by (simp add: bundleFile_malformed malformed_malformed_page intake_bad_file updateFileStatus_def)
  from malformed_document_admitted_then_rejected
         [where E = example_env and fileItem = ?d and c = malformed_page and st = ?st]
  have "\<forall>d\<in>set (files_state (bundleFile example_env ?d ?st)).
            file_id d = file_id ?d \<longrightarrow>
              status d = ERROR \<and> d \<notin> set (getValidFiles (bundleFile example_env ?d ?st))"
    by (simp add: malformed_malformed_page)
  then have "getValidFiles (bundleFile example_env ?d ?st) = []"
    unfolding fs by (simp add: getValidFiles_def fs)
  then show ?thesis
    by (simp add: fs malformed_malformed_page)
qed

section \<open>The pages that the export adds\<close>

lemma pages_add_page: "pages (add_page p doc) = pages doc @ [p]"
  by (cases doc) (simp_all add: pages_def add_page_def)

lemma add_page_not_None: "add_page p doc \<noteq> None"
  by (cases doc) (simp_all add: add_page_def)

lemma draw_add_page:
  "draw op (add_page p doc) = add_page (p\<lparr>contents := contents p @ [op]\<rparr>) doc"
  by (cases doc) (simp_all add: draw_def add_page_def)

lemma add_page_eq_Some_pages: "add_page p doc = Some (pages doc @ [p])"
  by (cases doc) (simp_all add: pages_def add_page_def)

lemma insideCover_cases:
  assumes "insideCover E files h ori doc = (doc', ok)"
  shows "(doc' = doc \<and> \<not> ok) \<or> (\<exists>c. is_cover (ori, pdfWidth, h) c \<and> doc' = add_page c doc)"
proof (cases "pdf_throws E (AddPage ori pdfWidth h)")
  case True
  with assms show ?thesis by (simp add: insideCover_def Let_def)
next
  case False
  define c0 where "c0 = \<lparr>origin = InsideCover, page_format = Some (ori, pdfWidth, h), contents = []\<rparr>"
  define bg where "bg = coverColor E files"
  define coloured where "coloured \<longleftrightarrow> toLowerCase bg \<noteq> js ''#ffffff'' \<and> toLowerCase bg \<noteq> js ''white''"
  have c: "is_cover (ori, pdfWidth, h) (c0\<lparr>contents := ops\<rparr>)" if "list_all is_fill ops" for ops
    using that by (simp add: is_cover_def c0_def)
  have "insideCover E files h ori doc =
      (if coloured then
         if pdf_throws E (Draw (SetFillColor bg)) then (add_page c0 doc, False)
         else if pdf_throws E (Draw (Rect pdfWidth h))
           then (draw (SetFillColor bg) (add_page c0 doc), False)
         else (draw (Rect pdfWidth h) (draw (SetFillColor bg) (add_page c0 doc)), True)
       else (add_page c0 doc, True))"
    unfolding insideCover_def Let_def c0_def bg_def coloured_def using False by simp
  with assms have eq: "(doc', ok) =
      (if coloured then
         if pdf_throws E (Draw (SetFillColor bg)) then (add_page c0 doc, False)
         else if pdf_throws E (Draw (Rect pdfWidth h))
           then (draw (SetFillColor bg) (add_page c0 doc), False)
         else (draw (Rect pdfWidth h) (draw (SetFillColor bg) (add_page c0 doc)), True)
       else (add_page c0 doc, True))"
    by simp
  have "\<exists>ops. list_all is_fill ops \<and> doc' = add_page (c0\<lparr>contents := ops\<rparr>) doc"
  proof (cases "coloured \<and> \<not> pdf_throws E (Draw (SetFillColor bg))")
    case False
    with eq have "doc' = add_page (c0\<lparr>contents := []\<rparr>) doc"
      by (auto simp: c0_def split: if_splits)
    then show ?thesis by (intro exI [of _ "[]"]) simp
  next
    case True
    show ?thesis
    proof (cases "pdf_throws E (Draw (Rect pdfWidth h))")
      case t: True
      with True eq have "doc' = add_page (c0\<lparr>contents := [SetFillColor bg]\<rparr>) doc"
        by (simp add: draw_add_page c0_def)
      then show ?thesis by (intro exI [of _ "[SetFillColor bg]"]) simp
    next
      case f: False
      with True eq have "doc' = add_page (c0\<lparr>contents := [SetFillColor bg, Rect pdfWidth h]\<rparr>) doc"
        by (simp add: draw_add_page c0_def)
      then show ?thesis by (intro exI [of _ "[SetFillColor bg, Rect pdfWidth h]"]) simp
    qed
  qed
  with c show ?thesis by blast
qed

lemma add_page_add_page: "add_page q (add_page p doc) = Some (pages doc @ [p, q])"
  by (cases doc) (simp_all add: pages_def add_page_def)

lemma render_page_shape:
  assumes "render_page E files pool i file c doc = (doc', ok)"
  shows "\<exists>new. render_shape i (length files) ok new
           \<and> (if new = [] then doc' = doc else doc' = Some (pages doc @ new))"
proof (cases "embedAssets E (redact c) file pool")
  case None
  with assms have "doc' = doc" "\<not> ok" by (simp_all add: render_page_def)
  then have "render_shape i (length files) ok [] \<and> doc' = doc" by (simp add: render_shape_def)
  then show ?thesis by (intro exI [of _ "[]"]) simp
next
  case (Some emb)
  obtain w h where wh: "getSvgDimensions E emb = (w, h)" by (cases "getSvgDimensions E emb")
  define H where "H = pdfWidth / (w / h)"
  define ori where "ori = (if pdfWidth > H then Landscape else Portrait)"
  define r0 where "r0 = \<lparr>origin = Rendered i, page_format = Some (ori, pdfWidth, H), contents = []\<rparr>"
  define call where "call = (if doc = None then NewDocument ori pdfWidth H else AddPage ori pdfWidth H)"
  have r: "is_rendered i (ori, pdfWidth, H) (r0\<lparr>contents := ops\<rparr>)" for ops
    by (simp add: is_rendered_def r0_def)
  have r0: "is_rendered i (ori, pdfWidth, H) r0"
    by (simp add: is_rendered_def r0_def)
  have eq: "render_page E files pool i file c doc =
      (if pdf_throws E call then (doc, False)
       else (case svgToDataUrl E emb (pdfWidth * pixelScale) (H * pixelScale) of
               None \<Rightarrow> (add_page r0 doc, False)
             | Some dataUrl \<Rightarrow>
                 if pdf_throws E (Draw (AddImage dataUrl pdfWidth H)) then (add_page r0 doc, False)
                 else if i = 0 \<and> length files > 1
                   then insideCover E files H ori (draw (AddImage dataUrl pdfWidth H) (add_page r0 doc))
                   else (draw (AddImage dataUrl pdfWidth H) (add_page r0 doc), True)))"
    unfolding render_page_def Let_def Some option.case wh prod.case H_def ori_def r0_def call_def
    by (rule refl)
  show ?thesis
  proof (cases "pdf_throws E call")
    case True
    with assms eq have "doc' = doc" "\<not> ok" by simp_all
    then have "render_shape i (length files) ok [] \<and> doc' = doc" by (simp add: render_shape_def)
    then show ?thesis by (intro exI [of _ "[]"]) simp
  next
    case nothrow: False
    have blank: ?thesis if "doc' = add_page r0 doc" "\<not> ok"
    proof -
      have "render_shape i (length files) ok [r0]"
        using r0 that(2) by (auto simp: render_shape_def)
      with that(1) show ?thesis
        by (intro exI [of _ "[r0]"]) (simp add: add_page_eq_Some_pages)
    qed
    show ?thesis
    proof (cases "svgToDataUrl E emb (pdfWidth * pixelScale) (H * pixelScale)")
      case None
      with assms eq nothrow have "doc' = add_page r0 doc" "\<not> ok" by simp_all
      then show ?thesis by (rule blank)
    next
      case (Some dataUrl)
      show ?thesis
      proof (cases "pdf_throws E (Draw (AddImage dataUrl pdfWidth H))")
        case True
        with assms eq nothrow Some have "doc' = add_page r0 doc" "\<not> ok" by simp_all
        then show ?thesis by (rule blank)
      next
        case False
        define r1 where "r1 = r0\<lparr>contents := contents r0 @ [AddImage dataUrl pdfWidth H]\<rparr>"
        have r1: "is_rendered i (ori, pdfWidth, H) r1"
          by (simp add: is_rendered_def r1_def r0_def)
        have d2: "draw (AddImage dataUrl pdfWidth H) (add_page r0 doc) = add_page r1 doc"
          by (simp add: draw_add_page r1_def)
        show ?thesis
        proof (cases "i = 0 \<and> length files > 1")
          case first: True
          with assms eq nothrow Some False d2
          have ic: "insideCover E files H ori (add_page r1 doc) = (doc', ok)" by simp
          from insideCover_cases [OF ic] show ?thesis
          proof
            assume "doc' = add_page r1 doc \<and> \<not> ok"
            then have "render_shape i (length files) ok [r1]" "doc' = Some (pages doc @ [r1])"
              using r1 by (auto simp: render_shape_def add_page_eq_Some_pages)
            then show ?thesis by (intro exI [of _ "[r1]"]) simp
          next
            assume "\<exists>c. is_cover (ori, pdfWidth, H) c \<and> doc' = add_page c (add_page r1 doc)"
            then obtain c where c: "is_cover (ori, pdfWidth, H) c" "doc' = add_page c (add_page r1 doc)"
              by blast
            have "render_shape i (length files) ok [r1, c]"
              using r1 c(1) first by (auto simp: render_shape_def)
            moreover have "doc' = Some (pages doc @ [r1, c])"
              using c(2) by (simp add: add_page_add_page)
            ultimately show ?thesis by (intro exI [of _ "[r1, c]"]) simp
          qed
        next
          case notfirst: False
          with assms eq nothrow Some False d2 have "doc' = add_page r1 doc" "ok" by auto
          then have "render_shape i (length files) ok [r1]" "doc' = Some (pages doc @ [r1])"
            using r1 notfirst by (auto simp: render_shape_def add_page_eq_Some_pages)
          then show ?thesis by (intro exI [of _ "[r1]"]) simp
        qed
      qed
    qed
  qed
qed

lemma render_shape_origins:
  assumes "render_shape i n ok body" and "p \<in> set body"
  shows "origin p = Rendered i \<or> (origin p = InsideCover \<and> i = 0 \<and> n > 1)"
  using assms by (auto simp: render_shape_def is_rendered_def is_cover_def)

lemma render_shape_ok_nonempty: "render_shape i n True body \<Longrightarrow> body \<noteq> []"
  by (auto simp: render_shape_def)

lemma placeholder_not_in_body:
  "render_shape i n ok body \<Longrightarrow> placeholder j f \<notin> set body"
  by (auto simp: placeholder_def dest: render_shape_origins)

lemma step_shape_nonempty: "step_shape i n f new \<Longrightarrow> new \<noteq> []"
  by (auto simp: step_shape_def dest: render_shape_ok_nonempty split: if_splits)

lemma generate_step_shape:
  assumes "generate_step E files pool (i, file) (doc, failed) = (doc', failed')"
  shows "\<exists>new. page_group (length files) (i, file) new
           \<and> (if new = [] then doc' = doc else doc' = Some (pages doc @ new))
           \<and> failed' = failed @ failure (i, file) new"
proof (cases "processedContent file")
  case None
  with assms have "doc' = doc" "failed' = failed" by (simp_all add: generate_step_def)
  with None show ?thesis
    by (intro exI [of _ "[]"]) (simp add: page_group_def failure_def)
next
  case (Some c)
  obtain doc1 ok where rp: "render_page E files pool i file c doc = (doc1, ok)"
    by (cases "render_page E files pool i file c doc")
  from render_page_shape [OF rp] obtain body
    where body: "render_shape i (length files) ok body"
      "if body = [] then doc1 = doc else doc1 = Some (pages doc @ body)" by blast
  have p1: "pages doc1 = pages doc @ body"
    using body(2) by (auto simp: pages_def split: if_splits)
  show ?thesis
  proof (cases ok)
    case True
    with assms Some rp have "doc' = doc1" "failed' = failed" by (simp_all add: generate_step_def)
    moreover have "body \<noteq> []" using body(1) True by (auto dest: render_shape_ok_nonempty)
    moreover have "step_shape i (length files) file body"
      using body(1) True by (auto simp: step_shape_def)
    moreover have "failure (i, file) body = []"
      using placeholder_not_in_body [OF body(1)] by (simp add: failure_def)
    ultimately show ?thesis using body(2) Some
      by (intro exI [of _ body]) (simp add: page_group_def)
  next
    case False
    have "draw (PdfText (js ''Error processing page: '' @ file_name (originalFile file)))
            (add_page \<lparr>origin = ErrorPage i, page_format = None, contents = []\<rparr> doc1)
          = add_page (placeholder i file) doc1"
      by (simp add: draw_add_page placeholder_def)
    with assms Some rp False have "doc' = add_page (placeholder i file) doc1"
      "failed' = failed @ [i + 1]"
      by (simp_all add: generate_step_def)
    then have "doc' = Some (pages doc @ body @ [placeholder i file])" "failed' = failed @ [i + 1]"
      by (simp_all add: add_page_eq_Some_pages p1)
    moreover have "step_shape i (length files) file (body @ [placeholder i file])"
      using body(1) False by (auto simp: step_shape_def)
    moreover have "failure (i, file) (body @ [placeholder i file]) = [i + 1]"
      by (simp add: failure_def)
    ultimately show ?thesis using Some
      by (intro exI [of _ "body @ [placeholder i file]"]) (simp add: page_group_def)
  qed
qed

lemma generate_fold_shape:
  "\<exists>news. list_all2 (page_group (length files)) (enumerate k fs) news
      \<and> (if concat news = []
          then fst (fold (generate_step E files pool) (enumerate k fs) (doc, failed)) = doc
          else fst (fold (generate_step E files pool) (enumerate k fs) (doc, failed))
                 = Some (pages doc @ concat news))
      \<and> snd (fold (generate_step E files pool) (enumerate k fs) (doc, failed))
            = failed @ concat (map2 failure (enumerate k fs) news)"
proof (induction fs arbitrary: k doc failed)
  case Nil
  show ?case by (intro exI [of _ "[]"]) simp
next
  case (Cons f fs)
  obtain doc1 failed1 where st: "generate_step E files pool (k, f) (doc, failed) = (doc1, failed1)"
    by (cases "generate_step E files pool (k, f) (doc, failed)")
  from generate_step_shape [OF st] obtain new
    where new: "page_group (length files) (k, f) new"
      "if new = [] then doc1 = doc else doc1 = Some (pages doc @ new)"
      "failed1 = failed @ failure (k, f) new" by blast
  let ?R = "fold (generate_step E files pool) (enumerate (Suc k) fs) (doc1, failed1)"
  from Cons.IH [of "Suc k" doc1 failed1] obtain news
    where news: "list_all2 (page_group (length files)) (enumerate (Suc k) fs) news"
      "if concat news = [] then fst ?R = doc1 else fst ?R = Some (pages doc1 @ concat news)"
      "snd ?R = failed1 @ concat (map2 failure (enumerate (Suc k) fs) news)" by blast
  have R: "fold (generate_step E files pool) (enumerate k (f # fs)) (doc, failed) = ?R"
    by (simp add: st)
  have p1: "pages doc1 = pages doc @ new"
    using new(2) by (auto simp: pages_def split: if_splits)
  have "list_all2 (page_group (length files)) (enumerate k (f # fs)) (new # news)"
    using new(1) news(1) by simp
  moreover have "if concat (new # news) = [] then fst ?R = doc
                 else fst ?R = Some (pages doc @ concat (new # news))"
    using new(2) news(2) p1 by (auto split: if_splits)
  moreover have "snd ?R = failed @ concat (map2 failure (enumerate k (f # fs)) (new # news))"
    using new(3) news(3) by simp
  ultimately show ?case
    unfolding R by (intro exI [of _ "new # news"]) blast
qed

lemma generate_shape:
  "\<exists>news. list_all2 (page_group (length files)) (enumerate 0 files) news
      \<and> pages (fst (generate E files pool)) = concat news
      \<and> (fst (generate E files pool) = None \<longleftrightarrow> concat news = [])
      \<and> snd (generate E files pool) = concat (map2 failure (enumerate 0 files) news)"
proof -
  from generate_fold_shape [of files 0 files E pool None "[]"] obtain news
    where news: "list_all2 (page_group (length files)) (enumerate 0 files) news"
      "if concat news = [] then fst (generate E files pool) = None
       else fst (generate E files pool) = Some (pages None @ concat news)"
      "snd (generate E files pool) = [] @ concat (map2 failure (enumerate 0 files) news)"
    unfolding generate_def by blast
  have "pages (fst (generate E files pool)) = concat news"
    using news(2) by (auto simp: pages_def split: if_splits)
  moreover have "fst (generate E files pool) = None \<longleftrightarrow> concat news = []"
    using news(2) by (auto split: if_splits)
  ultimately show ?thesis using news(1,3) by (intro exI [of _ news]) simp
qed

lemma map2_enumerate:
  assumes "length ys = length xs"
  shows "map2 f (enumerate 0 xs) ys = map (\<lambda>j. f (j, xs ! j) (ys ! j)) [0..<length xs]"
proof (rule nth_equalityI)
  show "length (map2 f (enumerate 0 xs) ys) = length (map (\<lambda>j. f (j, xs ! j) (ys ! j)) [0..<length xs])"
    using assms by simp
next
  fix i assume "i < length (map2 f (enumerate 0 xs) ys)"
  then have i: "i < length xs" using assms by simp
  then have "zip (enumerate 0 xs) ys ! i = ((i, xs ! i), ys ! i)"
    using assms by (simp add: nth_enumerate_eq)
  with i assms show "map2 f (enumerate 0 xs) ys ! i = map (\<lambda>j. f (j, xs ! j) (ys ! j)) [0..<length xs] ! i"
    by simp
qed

lemma generate_groups:
  "\<exists>news. length news = length files
      \<and> (\<forall>j<length files. page_group (length files) (j, files ! j) (news ! j))
      \<and> pages (fst (generate E files pool)) = concat news
      \<and> (fst (generate E files pool) = None \<longleftrightarrow> concat news = [])
      \<and> snd (generate E files pool)
           = concat (map (\<lambda>j. failure (j, files ! j) (news ! j)) [0..<length files])"
proof -
  from generate_shape [of files E pool] obtain news
    where news: "list_all2 (page_group (length files)) (enumerate 0 files) news"
      "pages (fst (generate E files pool)) = concat news"
      "fst (generate E files pool) = None \<longleftrightarrow> concat news = []"
      "snd (generate E files pool) = concat (map2 failure (enumerate 0 files) news)"
    by (elim exE conjE)
  have len: "length news = length files"
    using list_all2_lengthD [OF news(1)] by simp
  have grp: "\<forall>j<length files. page_group (length files) (j, files ! j) (news ! j)"
  proof (intro allI impI)
    fix j assume "j < length files"
    then show "page_group (length files) (j, files ! j) (news ! j)"
      using list_all2_nthD [OF news(1), of j] by (simp add: nth_enumerate_eq)
  qed
  have "map2 failure (enumerate 0 files) news
      = map (\<lambda>j. failure (j, files ! j) (news ! j)) [0..<length files]"
    using len by (rule map2_enumerate)
  then have f: "snd (generate E files pool)
      = concat (map (\<lambda>j. failure (j, files ! j) (news ! j)) [0..<length files])"
    by (simp only: news(4))
  show ?thesis
    by (rule exI [of _ news]) (intro conjI len grp news(2) news(3) f)
qed

lemma in_concat_nth:
  assumes "p \<in> set (concat xss)"
  shows "\<exists>j<length xss. p \<in> set (xss ! j)"
proof -
  from assms obtain xs where "xs \<in> set xss" "p \<in> set xs" by auto
  then obtain j where "j < length xss" "xss ! j = xs" by (auto simp: in_set_conv_nth)
  with \<open>p \<in> set xs\<close> show ?thesis by blast
qed

lemma page_group_origins:
  assumes "page_group n (j, f) new" and "p \<in> set new"
  shows "processedContent f \<noteq> None"
    and "origin p = Rendered j \<or> origin p = ErrorPage j \<or> (origin p = InsideCover \<and> j = 0 \<and> n > 1)"
proof -
  from assms show c: "processedContent f \<noteq> None"
    by (auto simp: page_group_def split: if_splits)
  with assms(1) obtain ok body where b: "render_shape j n ok body"
    "new = (if ok then body else body @ [placeholder j f])"
    by (auto simp: page_group_def step_shape_def)
  with assms(2) have "p \<in> set body \<or> p = placeholder j f" by (auto split: if_splits)
  then show "origin p = Rendered j \<or> origin p = ErrorPage j \<or> (origin p = InsideCover \<and> j = 0 \<and> n > 1)"
    using render_shape_origins [OF b(1), of p] by (auto simp: placeholder_def)
qed

section \<open>The export of the example documents\<close>

lemma redact_untagged:
  "redact (Element (js ''svg'') [(js ''xmlns'', ns), (js ''viewBox'', vb)] [])
     = Element (js ''svg'') [(js ''xmlns'', ns), (js ''viewBox'', vb)] []"
  by (simp add: redact_def redactImages_def getElementsByTagName_def js_eq_iff)

lemma embedAssets_plain:
  "embedAssets E (Element (js ''svg'') [(js ''xmlns'', ns), (js ''viewBox'', vb)] []) file pool
     = Some (Element (js ''svg'') [(js ''xmlns'', ns), (js ''viewBox'', vb)] [])"
  by (simp add: embedAssets_def getElementsByTagName_def js_eq_iff)

lemma split_seps_square: "split_seps (js ''0 0 100 100'') = [js ''0'', js ''0'', js ''100'', js ''100'']"
  by (simp add: js_simps is_sep_def isSpace_def comma_def)

lemma split_seps_wide: "split_seps (js ''0 0 200 100'') = [js ''0'', js ''0'', js ''200'', js ''100'']"
  by (simp add: js_simps is_sep_def isSpace_def comma_def)

lemma decimal_values: "decimal (js ''0'') = Some 0" "decimal (js ''100'') = Some 100"
  "decimal (js ''200'') = Some 200"
  by (simp_all add: decimal_def js_simps)

lemma local_name_svg: "local_name (Element (js ''svg'') as ks) = js ''svg''"
  by (simp add: local_name_def local_part_def js_simps colon_def)

lemma dimensions_square: "getSvgDimensions example_env square_page = (100, 100)"
  by (simp add: getSvgDimensions_def querySelector_svg_def square_page_def getAttribute_def
      local_name_svg js_eq_iff js_Nil_iff falsy_def split_seps_square example_env_simps
      decimal_values num_falsy_def)

lemma dimensions_wide: "getSvgDimensions example_env wide_page = (200, 100)"
  by (simp add: getSvgDimensions_def querySelector_svg_def wide_page_def getAttribute_def
      local_name_svg js_eq_iff js_Nil_iff falsy_def split_seps_wide example_env_simps
      decimal_values num_falsy_def)

lemma no_canvas_env_simps:
  "svgToDataUrl no_canvas_env = (\<lambda>d w h. None)"
  "pdf_throws no_canvas_env = (\<lambda>c. False)"
  "parseFloat no_canvas_env = decimal"
  by (simp_all add: no_canvas_env_def example_env_def)

lemma dimensions_square_no_canvas: "getSvgDimensions no_canvas_env square_page = (100, 100)"
  by (simp add: getSvgDimensions_def querySelector_svg_def square_page_def getAttribute_def
      local_name_svg js_eq_iff js_Nil_iff falsy_def split_seps_square no_canvas_env_simps
      decimal_values num_falsy_def)

lemma svg_in_svg_namespace:
  "namespaceURI (inside ((js ''xmlns'', js ''http://www.w3.org/2000/svg'') # as) outermost)
     (js ''svg'') = Some SVG_NS"
  by (simp add: namespaceURI_def prefix_of_def inside_def outermost_def SVG_NS_def js_Nil_iff)
     (simp add: js_simps colon_def)

lemma coverColor_book: "coverColor example_env book = js ''#FFFFFF''"
  by (simp add: coverColor_def book_def document_def detectBackgroundColor_def
      querySelector_svg_def wide_page_def example_env_simps getElementsByTagName_def
      js_eq_iff getAttribute_def falsy_def local_name_svg has_style_def svg_in_svg_namespace)

lemma white: "toLowerCase (js ''#FFFFFF'') = js ''#ffffff''"
  by (simp add: toLowerCase_def js_simps)

lemma render_first:
  "render_page example_env book [] 0 (document ''1.svg'' (Some square_page)) square_page None
     = (Some [page1, cover], True)"
proof -
  have "insideCover example_env book 210 Portrait (Some [page1]) = (Some [page1, cover], True)"
    by (simp add: insideCover_def coverColor_book white example_env_simps add_page_def cover_def
        pdfWidth_def)
  moreover have "length book > 1" by (simp add: book_def)
  ultimately show ?thesis
    unfolding square_page_def
    by (simp add: render_page_def redact_untagged embedAssets_plain
        dimensions_square [unfolded square_page_def] pdfWidth_def pixelScale_def
        example_env_simps add_page_def draw_def page1_def)
qed

lemma render_second:
  "render_page example_env book [] (Suc 0) (document ''2.svg'' (Some wide_page)) wide_page
     (Some [page1, cover]) = (Some [page1, cover, page2], True)"
  unfolding wide_page_def
  by (simp add: render_page_def redact_untagged embedAssets_plain
      dimensions_wide [unfolded wide_page_def] pdfWidth_def pixelScale_def
      example_env_simps add_page_def draw_def page2_def)

lemma processedContent_document: "processedContent (document n c) = c"
  by (simp add: document_def)

lemma generate_book: "generate example_env book [] = (Some [page1, cover, page2], [])"
proof -
  have "enumerate 0 book = [(0, document ''1.svg'' (Some square_page)),
      (1, document ''2.svg'' (Some wide_page)), (2, document ''3.svg'' None)]"
    by (simp add: book_def)
  then show ?thesis
    by (simp add: generate_def generate_step_def render_first render_second
        processedContent_document)
qed

lemma render_no_canvas:
  "render_page no_canvas_env one_page [] 0 (document ''1.svg'' (Some square_page)) square_page None
     = (Some [blank_page], False)"
  unfolding square_page_def
  by (simp add: render_page_def redact_untagged embedAssets_plain
      dimensions_square_no_canvas [unfolded square_page_def] pdfWidth_def pixelScale_def
      no_canvas_env_simps add_page_def blank_page_def)

lemma generate_no_canvas:
  "generate no_canvas_env one_page []
     = (Some [blank_page, placeholder 0 (document ''1.svg'' (Some square_page))], [1])"
proof -
  have "enumerate 0 one_page = [(0, document ''1.svg'' (Some square_page))]"
    by (simp add: one_page_def)
  then show ?thesis
    by (simp add: generate_def generate_step_def render_no_canvas add_page_def draw_def
        placeholder_def processedContent_document)
qed

section \<open>The inside cover, the placeholder pages, and the documents without content\<close>




lemma step_shape_has_page:
  "step_shape i n f new \<Longrightarrow> \<exists>p\<in>set new. origin p = Rendered i \<or> origin p = ErrorPage i"
  by (auto simp: step_shape_def render_shape_def is_rendered_def placeholder_def
      split: if_splits)

lemma output_iff_content:
  "fst (generate E files pool) \<noteq> None \<longleftrightarrow> (\<exists>f\<in>set files. processedContent f \<noteq> None)"
proof -
  from generate_groups [of files E pool] obtain news where news: "length news = length files"
    "\<forall>j<length files. page_group (length files) (j, files ! j) (news ! j)"
    "fst (generate E files pool) = None \<longleftrightarrow> concat news = []"
    by (elim exE conjE)
  have "concat news \<noteq> [] \<longleftrightarrow> (\<exists>j<length files. news ! j \<noteq> [])"
  proof
    assume "concat news \<noteq> []"
    then obtain xs where "xs \<in> set news" "xs \<noteq> []" by auto
    then show "\<exists>j<length files. news ! j \<noteq> []"
      using news(1) by (auto simp: in_set_conv_nth)
  next
    assume "\<exists>j<length files. news ! j \<noteq> []"
    then obtain j where j: "j < length news" "news ! j \<noteq> []" using news(1) by auto
    then have "news ! j \<in> set news" by simp
    with j(2) show "concat news \<noteq> []" by auto
  qed
  also have "\<dots> \<longleftrightarrow> (\<exists>j<length files. processedContent (files ! j) \<noteq> None)"
  proof -
    have "news ! j \<noteq> [] \<longleftrightarrow> processedContent (files ! j) \<noteq> None" if "j < length files" for j
    proof -
      from news(2) that have "page_group (length files) (j, files ! j) (news ! j)" by simp
      then show ?thesis
        using step_shape_nonempty [of j "length files" "files ! j" "news ! j"]
        by (auto simp: page_group_def split: if_splits)
    qed
    then show ?thesis by blast
  qed
  also have "\<dots> \<longleftrightarrow> (\<exists>f\<in>set files. processedContent f \<noteq> None)"
    unfolding set_conv_nth by (simp del: not_None_eq) blast
  finally show ?thesis using news(3) by simp
qed

lemma every_content_gets_page:
  assumes "i < length files" and "processedContent (files ! i) \<noteq> None"
  shows "(\<exists>p\<in>set (pages (fst (generate E files pool))).
            origin p = Rendered i \<or> origin p = ErrorPage i)
         \<and> (placeholder i (files ! i) \<in> set (pages (fst (generate E files pool)))
              \<longleftrightarrow> i + 1 \<in> set (snd (generate E files pool)))"
proof -
  from generate_groups [of files E pool] obtain news where news: "length news = length files"
    "\<forall>j<length files. page_group (length files) (j, files ! j) (news ! j)"
    "pages (fst (generate E files pool)) = concat news"
    "fst (generate E files pool) = None \<longleftrightarrow> concat news = []"
    "snd (generate E files pool)
       = concat (map (\<lambda>j. failure (j, files ! j) (news ! j)) [0..<length files])"
    by (elim exE conjE)
  have grp: "page_group (length files) (j, files ! j) (news ! j)" if "j < length files" for j
    using news(2) that by simp
  from grp [OF assms(1)] assms(2) have "step_shape i (length files) (files ! i) (news ! i)"
    by (simp add: page_group_def)
  from step_shape_has_page [OF this] obtain p where p: "p \<in> set (news ! i)"
    "origin p = Rendered i \<or> origin p = ErrorPage i" by blast
  have mem: "news ! i \<in> set news" using assms(1) news(1) by simp
  with p(1) have "p \<in> set (concat news)" by auto
  with p(2) have 1: "\<exists>p\<in>set (pages (fst (generate E files pool))).
            origin p = Rendered i \<or> origin p = ErrorPage i"
    unfolding news(3) by blast
  have 2: "placeholder i (files ! i) \<in> set (concat news)
      \<longleftrightarrow> placeholder i (files ! i) \<in> set (news ! i)"
  proof
    assume "placeholder i (files ! i) \<in> set (concat news)"
    from in_concat_nth [OF this] obtain j where j: "j < length news"
      "placeholder i (files ! i) \<in> set (news ! j)" by blast
    from page_group_origins(2) [OF grp j(2)] j(1) news(1) have "j = i"
      by (simp add: placeholder_def)
    with j(2) show "placeholder i (files ! i) \<in> set (news ! i)" by simp
  next
    assume "placeholder i (files ! i) \<in> set (news ! i)"
    with mem show "placeholder i (files ! i) \<in> set (concat news)" by auto
  qed
  have 3: "i + 1 \<in> set (snd (generate E files pool))
      \<longleftrightarrow> placeholder i (files ! i) \<in> set (news ! i)"
  proof
    assume "i + 1 \<in> set (snd (generate E files pool))"
    then obtain j where j: "j < length files" "i + 1 \<in> set (failure (j, files ! j) (news ! j))"
      unfolding news(5) by auto
    then show "placeholder i (files ! i) \<in> set (news ! i)"
      by (auto simp: failure_def split: if_splits)
  next
    assume "placeholder i (files ! i) \<in> set (news ! i)"
    then have "i + 1 \<in> set (failure (i, files ! i) (news ! i))" by (simp add: failure_def)
    with assms(1) show "i + 1 \<in> set (snd (generate E files pool))"
      unfolding news(5) by auto
  qed
  from 1 2 3 show ?thesis unfolding news(3) by simp
qed

lemma failed_step_adds_placeholder:
  assumes "processedContent file = Some c"
    and "render_page E files pool i file c doc = (d, False)"
  shows "generate_step E files pool (i, file) (doc, failed)
          = (Some (pages d @ [placeholder i file]), failed @ [i + 1])"
  using assms
  by (simp add: generate_step_def draw_add_page)
     (simp add: add_page_eq_Some_pages placeholder_def)

section \<open>Claims on the paginated export\<close>




text \<open>
  C3, as stated: the export produces a document if and only if a page reaches success.
  The \<open>catch\<close> block makes the document when there is none yet, so the export of a single
  document whose rendering fails produces a document all the same: it holds the page that
  was added before the failure, and the placeholder.
\<close>

theorem output_without_successful_page:
  "length one_page = 1
   \<and> generate no_canvas_env one_page []
       = (Some [blank_page, placeholder 0 (document ''1.svg'' (Some square_page))], [1])
   \<and> fst (generate no_canvas_env one_page []) \<noteq> None"
  by (simp add: generate_no_canvas) (simp add: one_page_def)

text \<open>
  C3, amended: the export produces a document if and only if some document of the list
  has a content. Every document with a content has a page in the exported document, a
  rendered page or a placeholder, whatever happened to the documents before it; its
  placeholder is in the exported document exactly when its page number is reported as
  failed. In the iteration of the loop, when the \<open>try\<close> block of a document raises an
  exception, the placeholder of that document is added at the end of the document, which
  is made if there is none yet, and the page number is added to those reported.
\<close>

theorem output_iff_some_content:
  "(fst (generate E files pool) \<noteq> None \<longleftrightarrow> (\<exists>f\<in>set files. processedContent f \<noteq> None))
   \<and> (\<forall>i<length files. processedContent (files ! i) \<noteq> None \<longrightarrow>
        (\<exists>p\<in>set (pages (fst (generate E files pool))).
            origin p = Rendered i \<or> origin p = ErrorPage i)
        \<and> (placeholder i (files ! i) \<in> set (pages (fst (generate E files pool)))
              \<longleftrightarrow> i + 1 \<in> set (snd (generate E files pool))))
   \<and> (\<forall>i file c doc d failed. processedContent file = Some c
          \<and> render_page E files pool i file c doc = (d, False) \<longrightarrow>
        generate_step E files pool (i, file) (doc, failed)
          = (Some (pages d @ [placeholder i file]), failed @ [i + 1]))"
  using output_iff_content [of E files pool] every_content_gets_page [of _ files E pool]
    failed_step_adds_placeholder [of _ _ E files pool]
  by blast

text \<open>The amended claim on the single document whose rendering fails.\<close>

theorem output_iff_some_content_witness:
  "0 < length one_page
   \<and> processedContent (one_page ! 0) = Some square_page
   \<and> render_page no_canvas_env one_page [] 0 (one_page ! 0) square_page None
       = (Some [blank_page], False)
   \<and> fst (generate no_canvas_env one_page []) \<noteq> None
   \<and> placeholder 0 (one_page ! 0) \<in> set (pages (fst (generate no_canvas_env one_page [])))
   \<and> 1 \<in> set (snd (generate no_canvas_env one_page []))
   \<and> generate_step no_canvas_env one_page [] (0, one_page ! 0) (None, [])
       = (Some [blank_page, placeholder 0 (one_page ! 0)], [1])"
proof -
  have b: "one_page ! 0 = document ''1.svg'' (Some square_page)" "0 < length one_page"
    by (simp_all add: one_page_def)
  have p: "processedContent (one_page ! 0) = Some square_page"
    by (simp add: b(1) processedContent_document)
  have r: "render_page no_canvas_env one_page [] 0 (one_page ! 0) square_page None
      = (Some [blank_page], False)"
    unfolding b(1) by (rule render_no_canvas)
  note t = output_iff_some_content [of no_canvas_env one_page "[]"]
  from t p r have s: "generate_step no_canvas_env one_page [] (0, one_page ! 0) (None, [])
      = (Some (pages (Some [blank_page]) @ [placeholder 0 (one_page ! 0)]), [] @ [0 + 1])"
    by blast
  have f: "fst (generate no_canvas_env one_page []) \<noteq> None"
    by (simp add: generate_no_canvas)
  have m: "placeholder 0 (one_page ! 0) \<in> set (pages (fst (generate no_canvas_env one_page [])))"
    by (simp add: generate_no_canvas b(1) pages_def)
  from t b(2) p have "placeholder 0 (one_page ! 0)
        \<in> set (pages (fst (generate no_canvas_env one_page [])))
      \<longleftrightarrow> 0 + 1 \<in> set (snd (generate no_canvas_env one_page []))"
    by (simp del: not_None_eq)
  with m have "1 \<in> set (snd (generate no_canvas_env one_page []))" by simp
  with b(2) p r f m s show ?thesis by (simp add: pages_def)
qed

text \<open>
  C10: a document without a content is skipped. Its iteration of the loop changes neither
  the document nor the list of the page numbers reported as failed, and the exported
  document has no page for it, rendered or placeholder, and no report of a failure.
\<close>

theorem null_content_is_skipped:
  assumes "i < length files" and "processedContent (files ! i) = None"
  shows "generate_step E files pool (i, files ! i) s = s
         \<and> (\<forall>p\<in>set (pages (fst (generate E files pool))).
               origin p \<noteq> Rendered i \<and> origin p \<noteq> ErrorPage i)
         \<and> i + 1 \<notin> set (snd (generate E files pool))"
proof -
  from generate_groups [of files E pool] obtain news where news: "length news = length files"
    "\<forall>j<length files. page_group (length files) (j, files ! j) (news ! j)"
    "pages (fst (generate E files pool)) = concat news"
    "fst (generate E files pool) = None \<longleftrightarrow> concat news = []"
    "snd (generate E files pool)
       = concat (map (\<lambda>j. failure (j, files ! j) (news ! j)) [0..<length files])"
    by (elim exE conjE)
  have 1: "generate_step E files pool (i, files ! i) s = s"
    using assms(2) by (cases s) (simp add: generate_step_def)
  have 2: "origin p \<noteq> Rendered i \<and> origin p \<noteq> ErrorPage i"
    if "p \<in> set (pages (fst (generate E files pool)))" for p
  proof -
    from that obtain j where j: "j < length files" "p \<in> set (news ! j)"
      unfolding news(3) using in_concat_nth [of p news] news(1) by auto
    from news(2) j(1) have "page_group (length files) (j, files ! j) (news ! j)" by simp
    from page_group_origins [OF this j(2)] assms(2)
    show ?thesis by auto
  qed
  have 3: "i + 1 \<notin> set (snd (generate E files pool))"
  proof
    assume "i + 1 \<in> set (snd (generate E files pool))"
    then obtain j where j: "j < length files" "i + 1 \<in> set (failure (j, files ! j) (news ! j))"
      unfolding news(5) by auto
    then have "j = i" "placeholder j (files ! j) \<in> set (news ! j)"
      by (auto simp: failure_def split: if_splits)
    moreover from news(2) j(1) have "page_group (length files) (j, files ! j) (news ! j)" by simp
    ultimately show False using page_group_origins(1) assms(2) by blast
  qed
  from 1 2 3 show ?thesis by blast
qed

text \<open>The claim on the third of the three documents of the example, which has no content.\<close>

theorem null_content_is_skipped_witness:
  "2 < length book
   \<and> processedContent (book ! 2) = None
   \<and> generate_step example_env book [] (2, book ! 2) (Some [page1], [7]) = (Some [page1], [7])
   \<and> origin page1 \<noteq> Rendered 2 \<and> origin page1 \<noteq> ErrorPage 2
   \<and> 3 \<notin> set (snd (generate example_env book []))"
proof -
  have b: "2 < length book" "processedContent (book ! 2) = None"
    by (simp_all add: book_def processedContent_document)
  have "page1 \<in> set (pages (fst (generate example_env book [])))"
    by (simp add: generate_book pages_def)
  with null_content_is_skipped [OF b, of example_env "[]" "(Some [page1], [7])"] b
  show ?thesis by auto
qed

end
